theory Spec2Isabelle
  imports Complex_Main "HOL-Library.Word"
begin

unbundle bit_operations_syntax

section \<open>Numbers\<close>

text \<open>
  The program is JavaScript: every number is an IEEE-754 binary64 value and every
  arithmetic operation returns the double nearest to the exact result, ties going to the
  even significand. A number is modelled as the real it denotes, and \<open>fl\<close> is the
  rounding: a double is an integer of at most 53 bits times a power of two whose
  exponent is at least \<open>-1074\<close>. The values of the program stay far below the largest
  double and no divisor of the program is 0, so overflow, the infinities, NaN and the
  sign of zero are left out.

  \<^verbatim>\<open>Math.sin\<close>, \<^verbatim>\<open>Math.cos\<close> and \<^verbatim>\<open>Math.atan2\<close> are approximations chosen by the
  JavaScript engine; they are modelled as the correctly rounded functions.
\<close>

text \<open>
  \<open>rne\<close> rounds a real to the nearest integer, a tie to the even one. \<open>expo x\<close> is
  the exponent of the unit in the last place of the doubles around \<open>x\<close>: 52 below the
  exponent of \<open>x\<close>, and \<open>-1074\<close> for the subnormal numbers.
\<close>

definition rne :: "real \<Rightarrow> int" where
  "rne y =
     (let f = \<lfloor>y\<rfloor>; d = y - of_int f
      in if d < 1 / 2 then f else if 1 / 2 < d then f + 1 else if even f then f else f + 1)"

definition expo :: "real \<Rightarrow> int" where
  "expo x = max (\<lfloor>log 2 \<bar>x\<bar>\<rfloor> - 52) (- 1074)"

definition fl :: "real \<Rightarrow> real" where
  "fl x = (if x = 0 then 0
           else of_int (rne (x / 2 powr of_int (expo x))) * 2 powr of_int (expo x))"

definition is_double :: "real \<Rightarrow> bool" where
  "is_double x = (fl x = x)"

definition jadd :: "real \<Rightarrow> real \<Rightarrow> real" where
  "jadd a b = fl (a + b)"

definition jsub :: "real \<Rightarrow> real \<Rightarrow> real" where
  "jsub a b = fl (a - b)"

definition jmul :: "real \<Rightarrow> real \<Rightarrow> real" where
  "jmul a b = fl (a * b)"

definition jdiv :: "real \<Rightarrow> real \<Rightarrow> real" where
  "jdiv a b = fl (a / b)"

definition Math_PI :: real where
  "Math_PI = fl pi"

definition Math_sin :: "real \<Rightarrow> real" where
  "Math_sin a = fl (sin a)"

definition Math_cos :: "real \<Rightarrow> real" where
  "Math_cos a = fl (cos a)"

text \<open>The angle in \<open>(-\<pi>, \<pi>]\<close> of the vector \<open>(a, b)\<close>, and 0 for the zero vector.\<close>

definition atan2 :: "real \<Rightarrow> real \<Rightarrow> real" where
  "atan2 b a =
     (if 0 < a then arctan (b / a)
      else if a < 0 then (if 0 \<le> b then arctan (b / a) + pi else arctan (b / a) - pi)
      else if 0 < b then pi / 2
      else if b < 0 then - pi / 2
      else 0)"

definition Math_atan2 :: "real \<Rightarrow> real \<Rightarrow> real" where
  "Math_atan2 b a = fl (atan2 b a)"

type_synonym u32 = "32 word"

text \<open>
  \<^verbatim>\<open>ToInt32\<close> of ECMAScript: truncate towards zero, then reduce modulo \<open>2^32\<close>. The bit
  operations \<^verbatim>\<open>^\<close>, \<^verbatim>\<open>|\<close>, \<^verbatim>\<open>>>>\<close> and \<^verbatim>\<open>Math.imul\<close> apply it (or \<^verbatim>\<open>ToUint32\<close>,
  which keeps the same 32 bits) to their operands.
\<close>

definition trunc :: "real \<Rightarrow> int" where
  "trunc x = (if 0 \<le> x then \<lfloor>x\<rfloor> else \<lceil>x\<rceil>)"

definition ToInt32 :: "real \<Rightarrow> u32" where
  "ToInt32 x = word_of_int (trunc x)"

definition imul :: "u32 \<Rightarrow> u32 \<Rightarrow> u32" where
  "imul a b = a * b"

section \<open>Random generator\<close>

text \<open>
  \<^verbatim>\<open>
  function mulberry32(seed) {
    return function () {
      let t = (seed += 0x6d2b79f5);
      t = Math.imul(t ^ (t >>> 15), t | 1);
      t ^= t + Math.imul(t ^ (t >>> 7), t | 61);
      return ((t ^ (t >>> 14)) >>> 0) / 4294967296;
    };
  }
  \<close>
  The closure's state is the captured variable \<^verbatim>\<open>seed\<close>, a number that is never wrapped.
  A draw takes the state and returns the number drawn together with the new state.
\<close>

definition seed_increment :: int where
  "seed_increment = 0x6d2b79f5"

definition advance :: "real \<Rightarrow> real" where
  "advance seed = jadd seed (of_int seed_increment)"

text \<open>
  The second line adds two signed 32-bit values as numbers and the \<^verbatim>\<open>^=\<close> reduces the
  sum modulo \<open>2^32\<close>.
\<close>

definition mix :: "u32 \<Rightarrow> u32" where
  "mix t0 =
     (let t1 = imul (t0 XOR drop_bit 15 t0) (t0 OR 1);
          t2 = t1 XOR ToInt32 (jadd (of_int (sint t1))
                                    (of_int (sint (imul (t1 XOR drop_bit 7 t1) (t1 OR 61)))))
      in t2 XOR drop_bit 14 t2)"

definition to_unit :: "u32 \<Rightarrow> real" where
  "to_unit w = jdiv (real (unat w)) 4294967296"

definition mulberry32 :: "real \<Rightarrow> real \<times> real" where
  "mulberry32 seed = (let seed' = advance seed in (to_unit (mix (ToInt32 seed')), seed'))"

section \<open>Track generation\<close>

record point =
  pt_x :: real
  pt_y :: real

text \<open>
  \<^verbatim>\<open>Math.min\<close> and \<^verbatim>\<open>Math.max\<close> of no arguments are \<open>+Infinity\<close> and
  \<open>-Infinity\<close>; the bounds are therefore extended numbers.
\<close>

datatype number = NegInfinity | Finite real | PosInfinity

fun num_min :: "number \<Rightarrow> number \<Rightarrow> number" where
  "num_min NegInfinity _ = NegInfinity"
| "num_min _ NegInfinity = NegInfinity"
| "num_min PosInfinity b = b"
| "num_min a PosInfinity = a"
| "num_min (Finite a) (Finite b) = Finite (min a b)"

fun num_max :: "number \<Rightarrow> number \<Rightarrow> number" where
  "num_max PosInfinity _ = PosInfinity"
| "num_max _ PosInfinity = PosInfinity"
| "num_max NegInfinity b = b"
| "num_max a NegInfinity = a"
| "num_max (Finite a) (Finite b) = Finite (max a b)"

definition Math_min :: "real list \<Rightarrow> number" where
  "Math_min xs = fold (\<lambda>x acc. num_min acc (Finite x)) xs PosInfinity"

definition Math_max :: "real list \<Rightarrow> number" where
  "Math_max xs = fold (\<lambda>x acc. num_max acc (Finite x)) xs NegInfinity"

record bounds =
  minX :: number
  maxX :: number
  minY :: number
  maxY :: number

record track =
  poly :: "point list"
  bounds :: bounds
  halfW :: real

definition TAU :: real where
  "TAU = jmul Math_PI 2"

definition N :: nat where
  "N = 100"

text \<open>
  The loop \<^verbatim>\<open>for (let i = 0; i < N; i++)\<close> of \<^verbatim>\<open>generateTrack\<close>: it threads the
  generator's state and the list built so far.
\<close>

function track_loop :: "nat \<Rightarrow> real \<Rightarrow> real \<Rightarrow> point list \<Rightarrow> point list \<times> real" where
  "track_loop i radius rng ps =
     (if i < N then
        let a = jmul (jdiv (real i) (real N)) TAU;
            (u, rng') = mulberry32 rng;
            r = jsub (jadd radius (jmul u 100)) 50
        in track_loop (i + 1) radius rng'
             (ps @ [\<lparr>pt_x = jmul (Math_cos a) r, pt_y = jmul (Math_sin a) r\<rparr>])
      else (ps, rng))"
  by pat_completeness auto
termination
  by (relation "measure (\<lambda>(i, radius, rng, ps). N - i)") auto

declare track_loop.simps [simp del]

definition generateTrack :: "real \<Rightarrow> track" where
  "generateTrack seed =
     (let (u, rng) = mulberry32 seed;
          radius = jadd 300 (jmul u 300);
          (ps, rng') = track_loop 0 radius rng [];
          b = \<lparr>minX = Math_min (map pt_x ps), maxX = Math_max (map pt_x ps),
               minY = Math_min (map pt_y ps), maxY = Math_max (map pt_y ps)\<rparr>
      in \<lparr>poly = ps, bounds = b, halfW = 40\<rparr>)"

section \<open>Track generation in the store of the program\<close>

text \<open>
  Every call of \<^verbatim>\<open>mulberry32\<close> creates a closure with a variable \<^verbatim>\<open>seed\<close> of its own,
  and every call of the closure updates that variable. The store holds the variables of
  the closures created so far, by address; \<open>next_cell\<close> is the first address not in
  use.
\<close>

record store =
  cells :: "nat \<Rightarrow> real"
  next_cell :: nat

definition empty_store :: store where
  "empty_store = \<lparr>cells = (\<lambda>a. 0), next_cell = 0\<rparr>"

text \<open>
  \<^verbatim>\<open>mulberry32(seed)\<close> allocates the variable and returns the closure, which is its
  address; \<^verbatim>\<open>rng()\<close> runs the body of the closure on the variable at that address.
\<close>

definition new_mulberry32 :: "real \<Rightarrow> store \<Rightarrow> nat \<times> store" where
  "new_mulberry32 seed st =
     (next_cell st, st\<lparr>cells := (cells st)(next_cell st := seed), next_cell := Suc (next_cell st)\<rparr>)"

definition call_rng :: "nat \<Rightarrow> store \<Rightarrow> real \<times> store" where
  "call_rng rng st =
     (let (u, seed') = mulberry32 (cells st rng) in (u, st\<lparr>cells := (cells st)(rng := seed')\<rparr>))"

text \<open>
  \<^verbatim>\<open>generateTrack\<close> and its loop as they run in the program, taking the store and
  returning it: the generator is the closure created by the first statement.
\<close>

function track_loop_in :: "nat \<Rightarrow> real \<Rightarrow> nat \<Rightarrow> store \<Rightarrow> point list \<Rightarrow> point list \<times> store" where
  "track_loop_in i radius rng st ps =
     (if i < N then
        let a = jmul (jdiv (real i) (real N)) TAU;
            (u, st') = call_rng rng st;
            r = jsub (jadd radius (jmul u 100)) 50
        in track_loop_in (i + 1) radius rng st'
             (ps @ [\<lparr>pt_x = jmul (Math_cos a) r, pt_y = jmul (Math_sin a) r\<rparr>])
      else (ps, st))"
  by pat_completeness auto
termination
  by (relation "measure (\<lambda>(i, radius, rng, st, ps). N - i)") auto

declare track_loop_in.simps [simp del]

definition generateTrack_in :: "real \<Rightarrow> store \<Rightarrow> track \<times> store" where
  "generateTrack_in seed st =
     (let (rng, st0) = new_mulberry32 seed st;
          (u, st1) = call_rng rng st0;
          radius = jadd 300 (jmul u 300);
          (ps, st2) = track_loop_in 0 radius rng st1 [];
          b = \<lparr>minX = Math_min (map pt_x ps), maxX = Math_max (map pt_x ps),
               minY = Math_min (map pt_y ps), maxY = Math_max (map pt_y ps)\<rparr>
      in (\<lparr>poly = ps, bounds = b, halfW = 40\<rparr>, st2))"

section \<open>Car\<close>

datatype error = TypeError

record car =
  car_x :: real
  car_y :: real
  car_yaw :: real
  car_v :: real
  car_delta :: real
  car_radius :: real

text \<open>
  \<^verbatim>\<open>track.poly[1]\<close> is \<^verbatim>\<open>undefined\<close> when the polygon has fewer than two points, and
  reading \<^verbatim>\<open>s1.y\<close> then throws a TypeError.
\<close>

definition makeCar :: "track \<Rightarrow> error + car" where
  "makeCar t =
     (if length (poly t) < 2 then Inl TypeError
      else
        let s0 = poly t ! 0;
            s1 = poly t ! 1;
            yaw = jadd (- Math_atan2 (jsub (pt_y s1) (pt_y s0)) (jsub (pt_x s1) (pt_x s0)))
                       (jdiv Math_PI 2)
        in Inr \<lparr>car_x = pt_x s0, car_y = pt_y s0, car_yaw = yaw, car_v = 0,
                car_delta = 0, car_radius = 15\<rparr>)"

section \<open>Simulation step\<close>

text \<open>
  \<^verbatim>\<open>keys.current\<close> is an object from key names to booleans; a key never pressed is
  absent and reads as \<^verbatim>\<open>undefined\<close>, which is falsy.
\<close>

type_synonym keys = "string \<Rightarrow> bool option"

definition held :: "keys \<Rightarrow> string \<Rightarrow> bool" where
  "held ks k = (ks k = Some True)"

text \<open>The literal \<^verbatim>\<open>0.98\<close> denotes the double nearest to it.\<close>

definition damping_factor :: real where
  "damping_factor = fl 0.98"

text \<open>
  The body of \<^verbatim>\<open>if (playerCar) { ... }\<close> in the frame callback: the seven assignments
  in the order of the source.
\<close>

definition simulate :: "keys \<Rightarrow> real \<Rightarrow> car \<Rightarrow> car" where
  "simulate ks dt c0 =
     (let acc = 100;
          c1 = (if held ks ''ArrowUp'' then c0\<lparr>car_v := jadd (car_v c0) (jmul acc dt)\<rparr> else c0);
          c2 = (if held ks ''ArrowDown'' then c1\<lparr>car_v := jsub (car_v c1) (jmul acc dt)\<rparr> else c1);
          c3 = (if held ks ''ArrowLeft'' then c2\<lparr>car_yaw := jsub (car_yaw c2) (jmul 2 dt)\<rparr> else c2);
          c4 = (if held ks ''ArrowRight'' then c3\<lparr>car_yaw := jadd (car_yaw c3) (jmul 2 dt)\<rparr> else c3);
          c5 = c4\<lparr>car_v := jmul (car_v c4) damping_factor\<rparr>;
          c6 = c5\<lparr>car_x := jadd (car_x c5) (jmul (jmul (Math_sin (car_yaw c5)) (car_v c5)) dt)\<rparr>;
          c7 = c6\<lparr>car_y := jsub (car_y c6) (jmul (jmul (Math_cos (car_yaw c6)) (car_v c6)) dt)\<rparr>
      in c7)"

text \<open>The latch before any key event: every key reads as \<^verbatim>\<open>undefined\<close>.\<close>

definition released :: keys where
  "released = (\<lambda>k. None)"

definition no_keys :: "keys \<Rightarrow> bool" where
  "no_keys ks = (\<not> held ks ''ArrowUp'' \<and> \<not> held ks ''ArrowDown'' \<and>
                 \<not> held ks ''ArrowLeft'' \<and> \<not> held ks ''ArrowRight'')"

section \<open>Frame driver\<close>

text \<open>
  The component registers two things with the browser: the key listeners (in the effect
  commented \<^verbatim>\<open>// Keyboard\<close>) and the frame callback \<^verbatim>\<open>step\<close> (in the effect
  commented \<^verbatim>\<open>// Game loop\<close>). The page state below holds what the browser and the
  closures hold: the window's listeners, whether \<^verbatim>\<open>step\<close> is in the list of
  animation-frame callbacks, and the variables \<^verbatim>\<open>step\<close> has captured.
\<close>

datatype listener = Down | Up

record page =
  keys_current :: keys
  listeners :: "(string \<times> listener) list"
  frame_requested :: bool
  lastTime :: real
  playerCar :: "car option"
  mounted :: bool

text \<open>
  An effect changes the page and returns its cleanup function, or \<^verbatim>\<open>undefined\<close>
  (\<open>None\<close>) when the effect function has no \<^verbatim>\<open>return\<close>.
\<close>

type_synonym effect = "page \<Rightarrow> page \<times> (page \<Rightarrow> page) option"

definition keyboard_effect :: effect where
  "keyboard_effect p =
     (p\<lparr>listeners := listeners p @ [(''keydown'', Down), (''keyup'', Up)]\<rparr>,
      Some (\<lambda>q. q\<lparr>listeners :=
                    removeAll (''keyup'', Up) (removeAll (''keydown'', Down) (listeners q))\<rparr>))"

definition game_loop_effect :: "real \<Rightarrow> effect" where
  "game_loop_effect now p = (p\<lparr>lastTime := now, frame_requested := True\<rparr>, None)"

text \<open>
  The frame callback \<^verbatim>\<open>step(t)\<close>, without the drawing (which changes no state of the
  model): it ends with \<^verbatim>\<open>requestAnimationFrame(step)\<close>.
\<close>

definition step :: "real \<Rightarrow> page \<Rightarrow> page" where
  "step t p =
     (let dt = jdiv (jsub t (lastTime p)) 1000;
          p1 = p\<lparr>lastTime := t\<rparr>;
          p2 = (case playerCar p1 of
                  None \<Rightarrow> p1
                | Some c \<Rightarrow> p1\<lparr>playerCar := Some (simulate (keys_current p1) dt c)\<rparr>)
      in p2\<lparr>frame_requested := True\<rparr>)"

text \<open>
  The browser, at a repaint at time \<open>t\<close>: it takes the callback out of the list and calls
  it, if one was requested.
\<close>

definition animation_frame :: "real \<Rightarrow> page \<Rightarrow> page" where
  "animation_frame t p =
     (if frame_requested p then step t (p\<lparr>frame_requested := False\<rparr>) else p)"

text \<open>
  Mounting runs the two effects; unmounting runs the cleanup functions the effects have
  returned, and discards the component.
\<close>

definition run_cleanup :: "(page \<Rightarrow> page) option \<Rightarrow> page \<Rightarrow> page" where
  "run_cleanup f p = (case f of None \<Rightarrow> p | Some g \<Rightarrow> g p)"

definition mount :: "real \<Rightarrow> page \<Rightarrow> page \<times> (page \<Rightarrow> page) option \<times> (page \<Rightarrow> page) option" where
  "mount now p =
     (let (p1, k) = keyboard_effect (p\<lparr>mounted := True\<rparr>);
          (p2, g) = game_loop_effect now p1
      in (p2, k, g))"

definition unmount :: "(page \<Rightarrow> page) option \<Rightarrow> (page \<Rightarrow> page) option \<Rightarrow> page \<Rightarrow> page" where
  "unmount k g p = (run_cleanup g (run_cleanup k p))\<lparr>mounted := False\<rparr>"

definition session :: "real \<Rightarrow> page \<Rightarrow> page" where
  "session now p = (let (p1, k, g) = mount now p in unmount k g p1)"

text \<open>A page before the component is mounted, with a car moving at speed 10.\<close>

definition moving_car :: car where
  "moving_car = \<lparr>car_x = 0, car_y = 0, car_yaw = 0, car_v = 10, car_delta = 0, car_radius = 15\<rparr>"

text \<open>A car whose speed is the smallest positive double, \<open>2^-1074\<close>.\<close>

definition creeping_car :: car where
  "creeping_car =
     \<lparr>car_x = 0, car_y = 0, car_yaw = 0, car_v = 2 powr - 1074, car_delta = 0, car_radius = 15\<rparr>"

definition initial_page :: page where
  "initial_page =
     \<lparr>keys_current = released, listeners = [], frame_requested = False, lastTime = 0,
      playerCar = Some moving_car, mounted = False\<rparr>"

section \<open>Reference generator\<close>

text \<open>
  The generator as the specification describes it: the state is one 32-bit counter, and
  every operation is 32-bit integer arithmetic that wraps around.
\<close>

definition ref_advance :: "u32 \<Rightarrow> u32" where
  "ref_advance s = s + 0x6d2b79f5"

definition ref_mix :: "u32 \<Rightarrow> u32" where
  "ref_mix t0 =
     (let t1 = (t0 XOR drop_bit 15 t0) * (t0 OR 1);
          t2 = t1 XOR (t1 + (t1 XOR drop_bit 7 t1) * (t1 OR 61))
      in t2 XOR drop_bit 14 t2)"

definition ref_mulberry32 :: "u32 \<Rightarrow> real \<times> u32" where
  "ref_mulberry32 s = (let s' = ref_advance s in (to_unit (ref_mix s'), s'))"

text \<open>The first \<open>n\<close> numbers drawn from a generator, by either implementation.\<close>

fun draws :: "nat \<Rightarrow> real \<Rightarrow> real list" where
  "draws 0 s = []"
| "draws (Suc n) s = (let (u, s') = mulberry32 s in u # draws n s')"

fun ref_draws :: "nat \<Rightarrow> u32 \<Rightarrow> real list" where
  "ref_draws 0 s = []"
| "ref_draws (Suc n) s = (let (u, s') = ref_mulberry32 s in u # ref_draws n s')"

section \<open>The generator's draws\<close>

text \<open>The state after \<open>k\<close> draws, and the number returned by draw \<open>k\<close> (counted from 0).\<close>

definition state_after :: "real \<Rightarrow> nat \<Rightarrow> real" where
  "state_after seed k = (advance ^^ k) seed"

definition draw :: "real \<Rightarrow> nat \<Rightarrow> real" where
  "draw seed k = fst (mulberry32 (state_after seed k))"

text \<open>The angle, the radius and the point of index \<open>k\<close> of the track of a seed.\<close>

definition angle :: "nat \<Rightarrow> real" where
  "angle k = jmul (jdiv (real k) (real N)) TAU"

definition radial :: "real \<Rightarrow> nat \<Rightarrow> real" where
  "radial seed k =
     jsub (jadd (jadd 300 (jmul (draw seed 0) 300)) (jmul (draw seed (Suc k)) 100)) 50"

definition track_point :: "real \<Rightarrow> nat \<Rightarrow> point" where
  "track_point seed k =
     \<lparr>pt_x = jmul (Math_cos (angle k)) (radial seed k),
      pt_y = jmul (Math_sin (angle k)) (radial seed k)\<rparr>"

definition distance :: "point \<Rightarrow> real" where
  "distance p = sqrt ((pt_x p)\<^sup>2 + (pt_y p)\<^sup>2)"

text \<open>A seed of 32 bits, signed or unsigned.\<close>

definition seed32 :: "int \<Rightarrow> bool" where
  "seed32 s = (- (2 ^ 31) \<le> s \<and> s < 2 ^ 32)"

section \<open>Rounding\<close>

lemma rne_of_int: "rne (of_int n) = n"
  by (simp add: rne_def)

lemma rne_error: "\<bar>of_int (rne y) - y\<bar> \<le> 1 / 2"
proof -
  have "of_int \<lfloor>y\<rfloor> \<le> y" "y < of_int \<lfloor>y\<rfloor> + 1" by linarith+
  then show ?thesis by (auto simp: rne_def Let_def)
qed

lemma rne_bounds:
  assumes "of_int a \<le> y" "y \<le> of_int b"
  shows "a \<le> rne y" "rne y \<le> b"
proof -
  have f: "a \<le> \<lfloor>y\<rfloor>" using assms(1) by (simp add: le_floor_iff)
  have g: "\<lfloor>y\<rfloor> \<le> b" using assms(2) by (simp add: floor_le_iff)
  show "a \<le> rne y" using f by (auto simp: rne_def Let_def)
  have "\<lfloor>y\<rfloor> + 1 \<le> b" if "of_int \<lfloor>y\<rfloor> < y"
  proof -
    have "of_int \<lfloor>y\<rfloor> < (of_int b :: real)" using that assms(2) by linarith
    then have "\<lfloor>y\<rfloor> < b" by simp
    then show ?thesis by simp
  qed
  then show "rne y \<le> b" using g by (auto simp: rne_def Let_def)
qed

lemma expo_ge: "- 1074 \<le> expo x"
  by (simp add: expo_def)

lemma fl_zero: "fl 0 = 0"
  by (simp add: fl_def)

text \<open>Scaling by the unit in the last place.\<close>

lemma fl_unfold:
  "x \<noteq> 0 \<Longrightarrow> fl x = of_int (rne (x / 2 powr of_int (expo x))) * 2 powr of_int (expo x)"
  by (simp add: fl_def)

lemma fl_abs_error: "\<bar>fl x - x\<bar> \<le> 2 powr of_int (expo x) / 2"
proof (cases "x = 0")
  case True
  then show ?thesis by (simp add: fl_def)
next
  case False
  define u :: real where "u = 2 powr of_int (expo x)"
  have u: "0 < u" by (simp add: u_def)
  have "fl x - x = (of_int (rne (x / u)) - x / u) * u"
    using u False by (simp add: fl_def u_def field_simps)
  then have "\<bar>fl x - x\<bar> = \<bar>of_int (rne (x / u)) - x / u\<bar> * u"
    using u by (simp add: abs_mult)
  also have "\<dots> \<le> 1 / 2 * u"
    using rne_error [of "x / u"] u by (intro mult_right_mono) simp_all
  finally show ?thesis by (simp add: u_def)
qed

lemma expo_subnormal: "x \<noteq> 0 \<Longrightarrow> \<bar>x\<bar> < 2 powr - 1022 \<Longrightarrow> expo x = - 1074"
proof -
  assume x: "x \<noteq> 0" and lt: "\<bar>x\<bar> < 2 powr - 1022"
  define k where "k = \<lfloor>log 2 \<bar>x\<bar>\<rfloor>"
  have "log 2 \<bar>x\<bar> < - 1022"
    using x lt by (simp add: log_less_iff)
  then have "k < - 1022" by (simp add: floor_less_iff k_def)
  then have "max (k - 52) (- 1074) = - 1074" by linarith
  then show ?thesis by (simp add: expo_def k_def)
qed

lemma expo_normal: "2 powr - 1022 \<le> \<bar>x\<bar> \<Longrightarrow> expo x = \<lfloor>log 2 \<bar>x\<bar>\<rfloor> - 52"
proof -
  assume ge: "2 powr - 1022 \<le> \<bar>x\<bar>"
  have "0 < (2::real) powr - 1022" by simp
  then have pos: "0 < \<bar>x\<bar>" using ge by linarith
  define k where "k = \<lfloor>log 2 \<bar>x\<bar>\<rfloor>"
  have "- 1022 \<le> log 2 \<bar>x\<bar>"
    using pos ge by (simp add: le_log_iff)
  then have "- 1022 \<le> k" by (simp add: le_floor_iff k_def)
  then have "max (k - 52) (- 1074) = k - 52" by linarith
  then show ?thesis by (simp add: expo_def k_def)
qed

lemma fl_error_subnormal: "\<bar>x\<bar> < 2 powr - 1022 \<Longrightarrow> \<bar>fl x - x\<bar> \<le> 2 powr - 1075"
proof (cases "x = 0")
  case True
  then show ?thesis by (simp add: fl_def)
next
  case False
  assume "\<bar>x\<bar> < 2 powr - 1022"
  then have e: "expo x = - 1074" using False by (simp add: expo_subnormal)
  have "(2::real) powr - 1074 / 2 = 2 powr (- 1074 - 1)"
    by (simp only: powr_diff) simp
  then show ?thesis using fl_abs_error [of x] by (simp add: e)
qed

lemma fl_error_normal: "2 powr - 1022 \<le> \<bar>x\<bar> \<Longrightarrow> \<bar>fl x - x\<bar> \<le> 2 powr - 53 * \<bar>x\<bar>"
proof -
  assume ge: "2 powr - 1022 \<le> \<bar>x\<bar>"
  have "0 < (2::real) powr - 1022" by simp
  then have pos: "0 < \<bar>x\<bar>" using ge by linarith
  define k where "k = \<lfloor>log 2 \<bar>x\<bar>\<rfloor>"
  have e: "expo x = k - 52" using ge by (simp add: expo_normal k_def)
  have "2 powr of_int k \<le> \<bar>x\<bar>"
    using pos floor_log_eq_powr_iff [of "\<bar>x\<bar>" 2 k] by (simp add: k_def)
  then have m: "2 powr - 53 * 2 powr of_int k \<le> 2 powr - 53 * \<bar>x\<bar>"
    by (intro mult_left_mono) simp_all
  have h: "(2::real) powr of_int (k - 52) / 2 = 2 powr - 53 * 2 powr of_int k"
  proof -
    have "(2::real) powr of_int (k - 52) / 2 = 2 powr (of_int (k - 52) - 1)"
      by (simp only: powr_diff) simp
    also have "\<dots> = 2 powr (- 53 + of_int k)" by simp
    also have "\<dots> = 2 powr - 53 * 2 powr of_int k" by (simp only: powr_add)
    finally show ?thesis .
  qed
  have "\<bar>fl x - x\<bar> \<le> 2 powr of_int (k - 52) / 2"
    using fl_abs_error [of x] by (simp only: e)
  then show ?thesis using m by (simp only: h)
qed


lemma expo_eval:
  assumes "2 powr of_int p \<le> \<bar>x\<bar>" "\<bar>x\<bar> < 2 powr (of_int p + 1)"
  shows "expo x = max (p - 52) (- 1074)"
proof -
  have "0 < (2::real) powr of_int p" by simp
  then have pos: "0 < \<bar>x\<bar>" using assms(1) by linarith
  have "\<lfloor>log 2 \<bar>x\<bar>\<rfloor> = p"
    using pos assms floor_log_eq_powr_iff [of "\<bar>x\<bar>" 2 p] by simp
  then show ?thesis by (simp add: expo_def)
qed

lemma abs_less_expo: "x \<noteq> 0 \<Longrightarrow> \<bar>x\<bar> < 2 powr (of_int (expo x) + 53)"
proof -
  assume x: "x \<noteq> 0"
  define k where "k = \<lfloor>log 2 \<bar>x\<bar>\<rfloor>"
  have "\<bar>x\<bar> < 2 powr (of_int k + 1)"
    using x floor_log_eq_powr_iff [of "\<bar>x\<bar>" 2 k] by (simp add: k_def)
  moreover have "k - 52 \<le> expo x" by (simp add: expo_def k_def)
  then have "(2::real) powr (of_int k + 1) \<le> 2 powr (of_int (expo x) + 53)"
    by simp
  ultimately show ?thesis by linarith
qed

lemma fl_dyadic:
  assumes "\<bar>m\<bar> < 2 ^ 53" "- 1074 \<le> e"
  shows "fl (of_int m * 2 powr of_int e) = of_int m * 2 powr of_int e"
proof (cases "m = 0")
  case True
  then show ?thesis by (simp add: fl_def)
next
  case False
  define x :: real where "x = of_int m * 2 powr of_int e"
  have x0: "x \<noteq> 0" using False by (simp add: x_def)
  define k where "k = \<lfloor>log 2 \<bar>x\<bar>\<rfloor>"
  have "real_of_int \<bar>m\<bar> < real_of_int (2 ^ 53)"
    using assms(1) by (rule of_int_less_iff [THEN iffD2])
  then have m: "\<bar>real_of_int m\<bar> < 2 powr 53" by simp
  have "\<bar>x\<bar> = \<bar>real_of_int m\<bar> * 2 powr of_int e"
    by (simp add: x_def abs_mult)
  also have "\<dots> < 2 powr 53 * 2 powr of_int e"
    using m by (intro mult_strict_right_mono) simp_all
  also have "\<dots> = 2 powr (53 + of_int e)" by (simp only: powr_add)
  finally have "\<bar>x\<bar> < 2 powr (53 + of_int e)" .
  then have "log 2 \<bar>x\<bar> < 53 + of_int e"
    using x0 by (simp add: log_less_iff)
  then have "k < 53 + e" by (simp add: k_def floor_less_iff)
  then have "max (k - 52) (- 1074) \<le> e" using assms(2) by linarith
  then have le: "expo x \<le> e" by (simp add: expo_def k_def)
  define ex where "ex = expo x"
  define j where "j = nat (e - ex)"
  have j: "of_int e = real_of_int ex + real j"
    using le by (simp add: j_def ex_def)
  have p: "(2::real) powr of_int e = 2 powr of_int ex * 2 ^ j"
    by (simp only: j powr_add powr_realpow [of 2 j, symmetric])
  have xp: "x = of_int (m * 2 ^ j) * 2 powr of_int ex"
    by (simp add: x_def p)
  then have "x / 2 powr of_int ex = of_int (m * 2 ^ j)"
    by simp
  then have "rne (x / 2 powr of_int ex) = m * 2 ^ j"
    by (simp only: rne_of_int)
  moreover have "fl x = of_int (rne (x / 2 powr of_int ex)) * 2 powr of_int ex"
    unfolding ex_def using x0 by (rule fl_unfold)
  ultimately have "fl x = x" using xp by simp
  then show ?thesis by (simp only: x_def)
qed

lemma fl_idem: "fl (fl x) = fl x"
proof (cases "x = 0")
  case True
  then show ?thesis by (simp add: fl_def)
next
  case False
  define e where "e = expo x"
  define y where "y = x / 2 powr of_int e"
  define n where "n = rne y"
  have e: "- 1074 \<le> e" by (simp add: e_def expo_ge)
  have flx: "fl x = of_int n * 2 powr of_int e"
    using False by (simp add: fl_def n_def y_def e_def)
  have "\<bar>x\<bar> < 2 powr (of_int e + 53)"
    unfolding e_def using False by (rule abs_less_expo)
  also have "\<dots> = 2 powr 53 * 2 powr of_int e"
    by (simp only: powr_add mult.commute)
  finally have "\<bar>x\<bar> / 2 powr of_int e < 2 powr 53"
    by (simp add: field_simps)
  then have ay: "\<bar>y\<bar> < 2 ^ 53" by (simp add: y_def)
  have "of_int (- (2 ^ 53)) \<le> y" "y \<le> of_int (2 ^ 53)"
    using ay by simp_all
  then have "- (2 ^ 53) \<le> n" "n \<le> 2 ^ 53"
    unfolding n_def by (rule rne_bounds)+
  then consider "\<bar>n\<bar> < 2 ^ 53" | "n = 2 ^ 53" | "n = - (2 ^ 53)" by linarith
  then show ?thesis
  proof cases
    case 1
    then show ?thesis unfolding flx using e by (rule fl_dyadic)
  next
    case 2
    have "real_of_int n * 2 powr of_int e = of_int 1 * 2 powr of_int (e + 53)"
      by (simp add: 2 powr_add)
    moreover have "fl (of_int 1 * 2 powr of_int (e + 53)) = of_int 1 * 2 powr of_int (e + 53)"
      by (rule fl_dyadic) (use e in simp_all)
    ultimately show ?thesis by (simp only: flx)
  next
    case 3
    have "real_of_int n * 2 powr of_int e = of_int (- 1) * 2 powr of_int (e + 53)"
      by (simp add: 3 powr_add)
    moreover have "fl (of_int (- 1) * 2 powr of_int (e + 53)) = of_int (- 1) * 2 powr of_int (e + 53)"
      by (rule fl_dyadic) (use e in simp_all)
    ultimately show ?thesis by (simp only: flx)
  qed
qed

lemma fl_eval:
  assumes "2 powr of_int p \<le> \<bar>x\<bar>" "\<bar>x\<bar> < 2 powr (of_int p + 1)"
  shows "fl x = of_int (rne (x / 2 powr of_int (max (p - 52) (- 1074)))) *
                2 powr of_int (max (p - 52) (- 1074))"
proof -
  have "0 < (2::real) powr of_int p" by simp
  then have "x \<noteq> 0" using assms(1) by auto
  then have "fl x = of_int (rne (x / 2 powr of_int (expo x))) * 2 powr of_int (expo x)"
    by (rule fl_unfold)
  then show ?thesis by (simp only: expo_eval [OF assms])
qed

lemma damping_factor_value: "damping_factor = 8827055269646172 / 2 ^ 53"
proof -
  have "fl 0.98 = of_int (rne (0.98 / 2 powr of_int (max (- 1 - 52) (- 1074)))) *
                2 powr of_int (max (- 1 - 52) (- 1074))"
    by (rule fl_eval) (simp_all add: powr_minus)
  moreover have "rne (0.98 * 2 ^ 53) = 8827055269646172"
    by (simp add: rne_def Let_def)
  ultimately have "fl 0.98 = 8827055269646172 / 2 ^ 53"
    by (simp add: powr_minus field_simps)
  then show ?thesis by (simp only: damping_factor_def)
qed

lemma rne_minus: "rne (- y) = - rne y"
proof (cases "y = of_int \<lfloor>y\<rfloor>")
  case True
  then obtain n where "y = of_int n" ..
  then have "rne y = n" "rne (- y) = - n"
    using rne_of_int [of n] rne_of_int [of "- n"] by simp_all
  then show ?thesis by simp
next
  case False
  define f where "f = \<lfloor>y\<rfloor>"
  have a: "of_int f \<le> y" "y < of_int f + 1"
    unfolding f_def by linarith+
  have "y \<noteq> of_int f" using False by (simp add: f_def)
  then have lt: "of_int f < y" "y < of_int f + 1"
    using a by linarith+
  have "\<lfloor>- y\<rfloor> = - f - 1"
    using lt by (intro floor_unique) simp_all
  then show ?thesis
    using lt by (auto simp: rne_def Let_def f_def [symmetric])
qed

lemma expo_minus: "expo (- x) = expo x"
  by (simp add: expo_def)

lemma fl_minus: "fl (- x) = - fl x"
  by (simp add: fl_def expo_minus rne_minus)

lemma fl_of_int: "\<bar>n\<bar> < 2 ^ 53 \<Longrightarrow> fl (of_int n) = of_int n"
  using fl_dyadic [of n 0] by simp

lemma fl_dyadic_div:
  assumes "\<bar>m\<bar> < 2 ^ 53" "j \<le> 1074"
  shows "fl (of_int m / 2 ^ j) = of_int m / 2 ^ j"
proof -
  have "(2::real) powr of_int (- int j) = 1 / 2 ^ j"
    by (simp add: powr_minus powr_realpow divide_inverse)
  then have "real_of_int m / 2 ^ j = of_int m * 2 powr of_int (- int j)" by simp
  moreover have "fl (of_int m * 2 powr of_int (- int j)) = of_int m * 2 powr of_int (- int j)"
    using assms by (intro fl_dyadic) simp_all
  ultimately show ?thesis by simp
qed

lemma is_double_fl: "is_double (fl x)"
  by (simp add: is_double_def fl_idem)

lemma is_double_of_int: "\<bar>n\<bar> < 2 ^ 53 \<Longrightarrow> is_double (of_int n)"
  by (simp add: is_double_def fl_of_int)

text \<open>\<open>fl x\<close> is a double, and no double is nearer to \<open>x\<close>.\<close>

lemma rne_nearest: "\<bar>of_int (rne y) - y\<bar> \<le> \<bar>of_int n - y\<bar>"
proof -
  define f where "f = \<lfloor>y\<rfloor>"
  have f: "of_int f \<le> y" "y < of_int f + 1" unfolding f_def by linarith+
  have r: "\<bar>of_int (rne y) - y\<bar> \<le> y - of_int f" "\<bar>of_int (rne y) - y\<bar> \<le> of_int f + 1 - y"
    using f by (auto simp: rne_def Let_def f_def [symmetric])
  show ?thesis
  proof (cases "n \<le> f")
    case True
    then have "real_of_int n \<le> of_int f" by simp
    then show ?thesis using r(1) f by linarith
  next
    case False
    then have "f + 1 \<le> n" by simp
    then have "real_of_int (f + 1) \<le> of_int n" by (rule of_int_le_iff [THEN iffD2])
    then show ?thesis using r(2) f by simp
  qed
qed

text \<open>A multiple of the unit in the last place of \<open>x\<close> is not nearer to \<open>x\<close> than \<open>fl x\<close>.\<close>

lemma fl_nearest_multiple:
  assumes "x \<noteq> 0"
  shows "\<bar>fl x - x\<bar> \<le> \<bar>of_int n * 2 powr of_int (expo x) - x\<bar>"
proof -
  define u :: real where "u = 2 powr of_int (expo x)"
  have u: "0 < u" by (simp add: u_def)
  have "fl x - x = (of_int (rne (x / u)) - x / u) * u"
    using u assms by (simp add: fl_def u_def field_simps)
  then have a: "\<bar>fl x - x\<bar> = \<bar>of_int (rne (x / u)) - x / u\<bar> * u"
    using u by (simp add: abs_mult)
  have "of_int n * u - x = (of_int n - x / u) * u"
    using u by (simp add: field_simps)
  then have b: "\<bar>of_int n * u - x\<bar> = \<bar>of_int n - x / u\<bar> * u"
    using u by (simp add: abs_mult)
  have "\<bar>of_int (rne (x / u)) - x / u\<bar> * u \<le> \<bar>of_int n - x / u\<bar> * u"
    using rne_nearest [of "x / u" n] u by (intro mult_right_mono) simp_all
  then have "\<bar>fl x - x\<bar> \<le> \<bar>of_int n * u - x\<bar>" by (simp only: a b)
  then show ?thesis by (simp only: u_def)
qed

lemma double_multiple:
  assumes "is_double y" "e \<le> expo y" 
  shows "\<exists>n. y = of_int n * 2 powr of_int e"
proof (cases "y = 0")
  case True
  then have "y = of_int 0 * 2 powr of_int e" by simp
  then show ?thesis by blast
next
  case False
  define m where "m = rne (y / 2 powr of_int (expo y))"
  have y: "y = of_int m * 2 powr of_int (expo y)"
    using assms(1) False by (simp add: is_double_def fl_def m_def)
  define j where "j = nat (expo y - e)"
  have j: "of_int (expo y) = real_of_int e + real j"
    using assms(2) by (simp add: j_def)
  have p: "(2::real) powr of_int (expo y) = 2 powr of_int e * 2 ^ j"
    by (simp only: j powr_add powr_realpow [of 2 j, symmetric])
  have "y = of_int m * (2 powr of_int e * 2 ^ j)" using y by (simp only: p)
  then have "y = of_int (m * 2 ^ j) * 2 powr of_int e" by simp
  then show ?thesis by blast
qed

lemma fl_nearest:
  assumes "is_double y"
  shows "\<bar>fl x - x\<bar> \<le> \<bar>y - x\<bar>"
proof (cases "x = 0")
  case True
  then show ?thesis by (simp add: fl_zero)
next
  case x0: False
  show ?thesis
  proof (cases "expo x \<le> expo y")
    case True
    then obtain n where "y = of_int n * 2 powr of_int (expo x)"
      using double_multiple [OF assms] by blast
    then show ?thesis using fl_nearest_multiple [OF x0, of n] by simp
  next
    case False
    then have lt: "expo y < expo x" by simp
    have "- 1074 \<le> expo y" by (rule expo_ge)
    then have "- 1074 < expo x" using lt by simp
    define k where "k = \<lfloor>log 2 \<bar>x\<bar>\<rfloor>"
    have ex: "expo x = k - 52" using \<open>- 1074 < expo x\<close> by (simp add: expo_def k_def)
    have "2 powr of_int k \<le> \<bar>x\<bar>"
      using x0 floor_log_eq_powr_iff [of "\<bar>x\<bar>" 2 k] by (simp add: k_def)
    then have xb: "2 powr (of_int (expo x) + 52) \<le> \<bar>x\<bar>" by (simp add: ex)
    have yb: "\<bar>y\<bar> < 2 powr (of_int (expo x) + 52)"
    proof (cases "y = 0")
      case True
      then show ?thesis by simp
    next
      case False
      then have "\<bar>y\<bar> < 2 powr (of_int (expo y) + 53)" by (rule abs_less_expo)
      also have "\<dots> \<le> 2 powr (of_int (expo x) + 52)"
        using lt by (intro powr_mono) simp_all
      finally show ?thesis .
    qed
    define b :: real where "b = 2 powr (of_int (expo x) + 52)"
    have bm: "b = of_int (2 ^ 52) * 2 powr of_int (expo x)"
      by (simp add: b_def powr_add)
    have bm': "- b = of_int (- (2 ^ 52)) * 2 powr of_int (expo x)"
      by (simp add: b_def powr_add)
    show ?thesis
    proof (cases "0 < x")
      case True
      then have "b \<le> x" "y < b" using xb yb by (simp_all add: b_def)
      then have "\<bar>b - x\<bar> \<le> \<bar>y - x\<bar>" by simp
      moreover have "\<bar>fl x - x\<bar> \<le> \<bar>b - x\<bar>"
        unfolding bm by (rule fl_nearest_multiple [OF x0])
      ultimately show ?thesis by simp
    next
      case False
      then have "x \<le> - b" "- b < y" using xb yb x0 by (simp_all add: b_def)
      then have "\<bar>- b - x\<bar> \<le> \<bar>y - x\<bar>" by simp
      moreover have "\<bar>fl x - x\<bar> \<le> \<bar>- b - x\<bar>"
        unfolding bm' by (rule fl_nearest_multiple [OF x0])
      ultimately show ?thesis by simp
    qed
  qed
qed

section \<open>The angle of a vector\<close>

text \<open>\<open>atan2 b a\<close> is the angle of the vector \<open>(a, b)\<close>.\<close>

lemma polar_arctan:
  assumes "a \<noteq> 0"
  shows "sqrt (a\<^sup>2 + b\<^sup>2) * cos (arctan (b / a)) = \<bar>a\<bar>"
    and "sqrt (a\<^sup>2 + b\<^sup>2) * sin (arctan (b / a)) = \<bar>a\<bar> * (b / a)"
proof -
  have "1 + (b / a)\<^sup>2 = (a\<^sup>2 + b\<^sup>2) / a\<^sup>2"
    using assms by (simp add: field_simps)
  then have "sqrt (1 + (b / a)\<^sup>2) = sqrt (a\<^sup>2 + b\<^sup>2) / \<bar>a\<bar>"
    by (simp add: real_sqrt_divide)
  moreover have "0 < sqrt (a\<^sup>2 + b\<^sup>2)"
    using assms by (simp add: sum_power2_gt_zero_iff)
  ultimately show "sqrt (a\<^sup>2 + b\<^sup>2) * cos (arctan (b / a)) = \<bar>a\<bar>"
    and "sqrt (a\<^sup>2 + b\<^sup>2) * sin (arctan (b / a)) = \<bar>a\<bar> * (b / a)"
    using assms by (simp_all add: cos_arctan sin_arctan)
qed

lemma atan2_angle:
  assumes "a \<noteq> 0 \<or> b \<noteq> 0"
  shows "a = sqrt (a\<^sup>2 + b\<^sup>2) * cos (atan2 b a) \<and>
         b = sqrt (a\<^sup>2 + b\<^sup>2) * sin (atan2 b a) \<and>
         - pi < atan2 b a \<and> atan2 b a \<le> pi"
proof -
  consider "0 < a" | "a < 0" "0 \<le> b" | "a < 0" "b < 0" | "a = 0" "0 < b" | "a = 0" "b < 0"
    using assms by linarith
  then show ?thesis
  proof cases
    case 1
    then have "a \<noteq> 0" by simp
    note p = polar_arctan [OF this, of b]
    have "- (pi / 2) < arctan (b / a)" "arctan (b / a) < pi / 2"
      by (rule arctan_lbound, rule arctan_ubound)
    then have "- pi < arctan (b / a)" "arctan (b / a) \<le> pi"
      using pi_gt_zero by linarith+
    then show ?thesis using 1 p by (simp add: atan2_def)
  next
    case 2
    then have "a \<noteq> 0" by simp
    note p = polar_arctan [OF this, of b]
    have "b / a \<le> 0" using 2 by (simp add: divide_nonneg_neg)
    then have "arctan (b / a) \<le> 0" by simp
    moreover have "- (pi / 2) < arctan (b / a)" by (rule arctan_lbound)
    ultimately have "- pi < arctan (b / a) + pi" "arctan (b / a) + pi \<le> pi"
      using pi_gt_zero by linarith+
    then show ?thesis using 2 p by (simp add: atan2_def)
  next
    case 3
    then have "a \<noteq> 0" by simp
    note p = polar_arctan [OF this, of b]
    have "0 < b / a" using 3 by (simp add: divide_neg_neg)
    then have "0 < arctan (b / a)" by simp
    moreover have "arctan (b / a) < pi / 2" by (rule arctan_ubound)
    ultimately have "- pi < arctan (b / a) - pi" "arctan (b / a) - pi \<le> pi"
      using pi_gt_zero by linarith+
    then show ?thesis using 3 p by (simp add: atan2_def)
  next
    case 4
    then show ?thesis using pi_gt_zero by (simp add: atan2_def)
  next
    case 5
    have "- (pi / 2) \<le> pi" using pi_gt_zero by linarith
    then show ?thesis using 5 by (simp add: atan2_def)
  qed
qed

section \<open>Facts about the draws\<close>

lemma to_unit_exact: "to_unit w = real (unat w) / 4294967296"
proof -
  define n where "n = unat w"
  have "n < 2 ^ 32"
    using unsigned_less [of w, where 'a = nat] by (simp add: n_def)
  then have "\<bar>int n\<bar> < 2 ^ 53" by simp
  then have "fl (of_int (int n) / 2 ^ 32) = of_int (int n) / 2 ^ 32"
    by (rule fl_dyadic_div) simp
  then show ?thesis by (simp add: to_unit_def jdiv_def n_def)
qed

lemma to_unit_range: "0 \<le> to_unit w" "to_unit w < 1"
proof -
  define n where "n = unat w"
  have eq: "to_unit w = real n / 4294967296"
    by (simp add: to_unit_exact n_def)
  have "n < 2 ^ 32"
    using unsigned_less [of w, where 'a = nat] by (simp add: n_def)
  then have "real n < real (2 ^ 32)"
    by (rule of_nat_less_iff [THEN iffD2])
  then have lt: "real n < 4294967296" by simp
  show "0 \<le> to_unit w" unfolding eq by simp
  show "to_unit w < 1" unfolding eq using lt by simp
qed

lemma to_unit_pos: "w \<noteq> 0 \<Longrightarrow> 1 / 4294967296 \<le> to_unit w"
proof -
  assume "w \<noteq> 0"
  then have "unat w \<noteq> 0" by (simp add: unat_eq_0)
  then have "1 \<le> unat w" by simp
  then have "real 1 \<le> real (unat w)" by (rule of_nat_le_iff [THEN iffD2])
  then show ?thesis by (simp add: to_unit_exact divide_right_mono)
qed

lemma snd_mulberry32: "snd (mulberry32 s) = advance s"
  by (simp add: mulberry32_def Let_def)

lemma state_after_Suc: "state_after seed (Suc k) = advance (state_after seed k)"
  by (simp add: state_after_def)

lemma state_after_advance: "state_after (advance seed) k = state_after seed (Suc k)"
  by (simp add: state_after_def funpow_swap1)

lemma draw_range: "0 \<le> draw seed k" "draw seed k < 1"
  by (simp_all add: draw_def mulberry32_def Let_def to_unit_range)

lemma draw_eq: "draw seed k = to_unit (mix (ToInt32 (state_after seed (Suc k))))"
  by (simp add: draw_def mulberry32_def Let_def state_after_Suc)

section \<open>The generator against its 32-bit reference\<close>

lemma trunc_of_int: "trunc (of_int n) = n"
  by (simp add: trunc_def)

lemma ToInt32_of_int: "ToInt32 (of_int n) = word_of_int n"
  by (simp add: ToInt32_def trunc_of_int)

lemma advance_exact:
  assumes "- (2 ^ 53) < s" "s + seed_increment < 2 ^ 53"
  shows "advance (of_int s) = of_int (s + seed_increment)"
proof -
  have "0 < seed_increment" by (simp add: seed_increment_def)
  then have "\<bar>s + seed_increment\<bar> < 2 ^ 53" using assms by linarith
  then have "fl (of_int (s + seed_increment)) = of_int (s + seed_increment)"
    by (rule fl_of_int)
  then show ?thesis by (simp add: advance_def jadd_def)
qed

lemma state_after_exact:
  "- (2 ^ 53) < s \<Longrightarrow> s + int k * seed_increment < 2 ^ 53 \<Longrightarrow>
   state_after (of_int s) k = of_int (s + int k * seed_increment)"
proof (induction k)
  case 0
  then show ?case by (simp add: state_after_def)
next
  case (Suc k)
  have pos: "0 < seed_increment" by (simp add: seed_increment_def)
  have lt: "s + int k * seed_increment < 2 ^ 53"
    using Suc.prems(2) pos by (simp add: algebra_simps)
  have st: "state_after (of_int s) k = of_int (s + int k * seed_increment)"
    using Suc.IH Suc.prems(1) lt by simp
  have "0 \<le> int k * seed_increment" using pos by simp
  then have lo: "- (2 ^ 53) < s + int k * seed_increment" using Suc.prems(1) by linarith
  have hi: "(s + int k * seed_increment) + seed_increment < 2 ^ 53"
    using Suc.prems(2) by (simp add: algebra_simps)
  have "state_after (of_int s) (Suc k) = of_int ((s + int k * seed_increment) + seed_increment)"
    by (simp only: state_after_Suc st advance_exact [OF lo hi])
  then show ?case by (simp add: algebra_simps)
qed

lemma ToInt32_sum: "ToInt32 (jadd (of_int (sint a)) (of_int (sint b))) = a + b"
  for a b :: u32
proof -
  have "- 2147483648 \<le> sint a" "sint a < 2147483648"
    "- 2147483648 \<le> sint b" "sint b < 2147483648"
    using sint_range_size [of a] sint_range_size [of b] by (simp_all add: word_size)
  then have "\<bar>sint a + sint b\<bar> < 9007199254740992" by linarith
  then have "\<bar>sint a + sint b\<bar> < 2 ^ 53" by simp
  then have "fl (of_int (sint a + sint b)) = of_int (sint a + sint b)"
    by (rule fl_of_int)
  then have j: "jadd (of_int (sint a)) (of_int (sint b)) = of_int (sint a + sint b)"
    by (simp only: jadd_def of_int_add)
  have "ToInt32 (of_int (sint a + sint b)) = word_of_int (sint a + sint b)"
    by (rule ToInt32_of_int)
  also have "\<dots> = a + b" by simp
  finally show ?thesis by (simp only: j)
qed

lemma ToInt32_signed_sum: "ToInt32 (jadd (signed a) (signed b)) = a + b"
  for a b :: u32
  using ToInt32_sum [of a b] by simp

lemma mix_ref_mix: "mix w = ref_mix w"
  by (simp add: mix_def ref_mix_def imul_def ToInt32_signed_sum)

lemma ToInt32_advance:
  "- (2 ^ 53) < s \<Longrightarrow> s + seed_increment < 2 ^ 53 \<Longrightarrow>
   ToInt32 (advance (of_int s)) = ref_advance (ToInt32 (of_int s))"
  by (simp only: advance_exact ToInt32_of_int ref_advance_def) (simp add: seed_increment_def)

lemma draws_refine:
  "- (2 ^ 53) < s \<Longrightarrow> s + int n * seed_increment < 2 ^ 53 \<Longrightarrow>
   draws n (of_int s) = ref_draws n (ToInt32 (of_int s))"
proof (induction n arbitrary: s)
  case 0
  then show ?case by simp
next
  case (Suc n)
  have pos: "0 < seed_increment" by (simp add: seed_increment_def)
  have "0 \<le> int n * seed_increment" using pos by simp
  then have hi: "s + seed_increment < 2 ^ 53"
    using Suc.prems(2) by (simp add: algebra_simps)
  have adv: "advance (of_int s) = of_int (s + seed_increment)"
    using Suc.prems(1) hi by (rule advance_exact)
  have w: "ToInt32 (advance (of_int s)) = ref_advance (ToInt32 (of_int s))"
    using Suc.prems(1) hi by (rule ToInt32_advance)
  have lo': "- (2 ^ 53) < s + seed_increment" using Suc.prems(1) pos by linarith
  have hi': "(s + seed_increment) + int n * seed_increment < 2 ^ 53"
    using Suc.prems(2) by (simp add: algebra_simps)
  have "draws n (of_int (s + seed_increment)) = ref_draws n (ToInt32 (of_int (s + seed_increment)))"
    using lo' hi' by (rule Suc.IH)
  then have "draws n (advance (of_int s)) = ref_draws n (ToInt32 (advance (of_int s)))"
    by (simp only: adv)
  then show ?case
    by (simp add: mulberry32_def ref_mulberry32_def Let_def w mix_ref_mix)
qed

lemma draws_nth: "k < n \<Longrightarrow> draws n s ! k = draw s k"
proof (induction n arbitrary: s k)
  case 0
  then show ?case by simp
next
  case (Suc n)
  show ?case
  proof (cases k)
    case 0
    then show ?thesis by (simp add: draw_def state_after_def split: prod.split)
  next
    case (Suc j)
    then have "j < n" using Suc.prems by simp
    then have "draws n (advance s) ! j = draw (advance s) j" by (rule Suc.IH)
    then show ?thesis
      using Suc by (simp add: draw_def state_after_advance mulberry32_def Let_def)
  qed
qed

lemma ref_draws_nth: "k < n \<Longrightarrow> ref_draws n s ! k = fst (ref_mulberry32 ((ref_advance ^^ k) s))"
proof (induction n arbitrary: s k)
  case 0
  then show ?case by simp
next
  case (Suc n)
  show ?case
  proof (cases k)
    case 0
    then show ?thesis by (simp split: prod.split)
  next
    case (Suc j)
    then have "j < n" using Suc.prems by simp
    then have "ref_draws n (ref_advance s) ! j = fst (ref_mulberry32 ((ref_advance ^^ j) (ref_advance s)))"
      by (rule Suc.IH)
    then show ?thesis
      using Suc by (simp add: ref_mulberry32_def Let_def funpow_swap1)
  qed
qed

lemma ref_advance_funpow: "(ref_advance ^^ k) s = s + word_of_nat k * 0x6d2b79f5"
  by (induction k) (simp_all add: ref_advance_def algebra_simps)

lemma state_refines:
  assumes "- (2 ^ 53) < s" "s + int n * seed_increment < 2 ^ 53"
  shows "ToInt32 (state_after (of_int s) n) = (ref_advance ^^ n) (ToInt32 (of_int s))"
proof -
  have "state_after (of_int s) n = of_int (s + int n * seed_increment)"
    using assms by (rule state_after_exact)
  then show ?thesis
    by (simp only: ref_advance_funpow ToInt32_of_int) (simp add: seed_increment_def)
qed

lemma advance_rounds: "advance 9007197429407254 = 9007199260973068"
proof -
  have "fl 9007199260973067 =
      of_int (rne (9007199260973067 / 2 powr of_int (max (53 - 52) (- 1074)))) *
      2 powr of_int (max (53 - 52) (- 1074))"
    by (rule fl_eval) simp_all
  moreover have "rne (9007199260973067 / 2) = 4503599630486534"
    by (simp add: rne_def Let_def)
  ultimately have "fl 9007199260973067 = 9007199260973068" by simp
  then show ?thesis by (simp add: advance_def jadd_def seed_increment_def)
qed

lemma draw_diverge: "draw 0 4917758 = to_unit 2430946484"
proof -
  have "state_after (of_int 0) 4917758 = of_int (0 + int 4917758 * seed_increment)"
    by (rule state_after_exact) (simp_all add: seed_increment_def)
  then have st: "state_after 0 4917758 = 9007197429407254"
    by (simp add: seed_increment_def)
  have "ToInt32 (of_int 9007199260973068) = 6232076"
    by (simp only: ToInt32_of_int) simp
  then have t: "ToInt32 9007199260973068 = 6232076" by simp
  have "mix 6232076 = 2430946484"
    by (simp add: mix_ref_mix ref_mix_def Let_def)
  then show ?thesis
    by (simp add: draw_def st mulberry32_def Let_def advance_rounds t)
qed

lemma ref_draw_diverge: "fst (ref_mulberry32 ((ref_advance ^^ 4917758) (ToInt32 0))) = to_unit 3767445004"
proof -
  have "ToInt32 (of_int 0) = 0" by (simp only: ToInt32_of_int) simp
  then have z: "ToInt32 0 = 0" by simp
  have "(ref_advance ^^ 4917758) (ToInt32 0) = 2469633558"
    by (simp add: ref_advance_funpow z)
  moreover have "ref_mix (ref_advance 2469633558) = 3767445004"
    by (simp add: ref_mix_def ref_advance_def Let_def)
  ultimately show ?thesis by (simp add: ref_mulberry32_def Let_def)
qed

lemma to_unit_neq: "to_unit 2430946484 \<noteq> to_unit 3767445004"
  by (simp add: to_unit_exact)

section \<open>A draw is zero only at counter zero\<close>

lemma xor_eq_zero_word: "a XOR b = 0 \<Longrightarrow> a = b" for a b :: u32
proof -
  assume "a XOR b = 0"
  then have "(a XOR b) XOR b = 0 XOR b" by simp
  then show "a = b" by (simp add: xor.assoc)
qed

lemma xorshift_zero: "0 < n \<Longrightarrow> w XOR drop_bit n w = 0 \<Longrightarrow> w = 0" for w :: u32
proof -
  assume n: "0 < n" and x: "w XOR drop_bit n w = 0"
  have eq: "w = drop_bit n w" using x by (rule xor_eq_zero_word)
  have "unat w = unat (drop_bit n w)" by (rule arg_cong [OF eq])
  also have "\<dots> = drop_bit n (unat w)" by (rule unat_drop_bit_eq)
  also have "\<dots> = unat w div 2 ^ n" by (rule drop_bit_eq_div)
  finally have e: "unat w = unat w div 2 ^ n" .
  have "unat w = 0"
  proof (rule ccontr)
    assume "unat w \<noteq> 0"
    then have "0 < unat w" by simp
    moreover have "(1::nat) < 2 ^ n" by (rule one_less_power) (simp_all add: n)
    ultimately have "unat w div 2 ^ n < unat w" by (rule div_less_dividend [rotated])
    then show False using e by simp
  qed
  then show ?thesis by (simp add: unat_eq_0)
qed

lemma odd_mult_zero: "odd b \<Longrightarrow> a * b = 0 \<Longrightarrow> a = 0" for a b :: u32
proof -
  assume b: "odd b" and z: "a * b = 0"
  have "uint (a * b) = 0" using z by simp
  then have "(uint a * uint b) mod 2 ^ 32 = 0" by (simp add: uint_word_ariths)
  then have d: "(2::int) ^ 32 dvd uint a * uint b" by (simp add: dvd_eq_mod_eq_0)
  have "even (uint b) \<longleftrightarrow> even b" by transfer simp
  then have "odd (uint b)" using b by simp
  then have "coprime 2 (uint b)" by (rule coprime_left_2_iff_odd [THEN iffD2])
  then have "coprime (2 ^ 32) (uint b)"
    by (rule coprime_power_left_iff [THEN iffD2, OF disjI1])
  then have dv: "(2::int) ^ 32 dvd uint a" using d by (simp only: coprime_dvd_mult_left_iff)
  have r: "0 \<le> uint a" "uint a < 2 ^ 32" using uint_lt2p [of a] by simp_all
  have "uint a = 0"
  proof (rule ccontr)
    assume "uint a \<noteq> 0"
    then have "0 < uint a" using r(1) by linarith
    with dv have "(2::int) ^ 32 \<le> uint a" by (rule zdvd_imp_le)
    then show False using r(2) by linarith
  qed
  then show ?thesis by (simp add: uint_0_iff)
qed

lemma ref_mix_zero: "ref_mix w = 0 \<Longrightarrow> w = 0"
proof -
  assume z: "ref_mix w = 0"
  define t1 where "t1 = (w XOR drop_bit 15 w) * (w OR 1)"
  define m where "m = (t1 XOR drop_bit 7 t1) * (t1 OR 61)"
  define t2 where "t2 = t1 XOR (t1 + m)"
  have "t2 XOR drop_bit 14 t2 = 0"
    using z by (simp add: ref_mix_def Let_def t2_def m_def t1_def)
  then have "t2 = 0" by (rule xorshift_zero [rotated]) simp
  then have "t1 = t1 + m" unfolding t2_def by (rule xor_eq_zero_word)
  then have "m = 0" by simp
  moreover have "odd (t1 OR 61)" by (simp add: even_or_iff)
  ultimately have "t1 XOR drop_bit 7 t1 = 0" unfolding m_def by (rule odd_mult_zero [rotated])
  then have "t1 = 0" by (rule xorshift_zero [rotated]) simp
  moreover have "odd (w OR 1)" by (simp add: even_or_iff)
  ultimately have "w XOR drop_bit 15 w = 0" unfolding t1_def by (rule odd_mult_zero [rotated])
  then show "w = 0" by (rule xorshift_zero [rotated]) simp
qed

lemma to_unit_zero: "to_unit w = 0 \<Longrightarrow> w = 0"
  using to_unit_pos [of w] by (cases "w = 0") simp_all

lemma draw_zero: "draw seed k = 0 \<Longrightarrow> ToInt32 (state_after seed (Suc k)) = 0"
  by (simp add: draw_eq mix_ref_mix to_unit_zero ref_mix_zero)

lemma multiple_not_zero:
  assumes "0 < j" "j \<le> 100"
  shows "(word_of_int (int j * seed_increment) :: u32) \<noteq> 0"
proof
  assume "(word_of_int (int j * seed_increment) :: u32) = 0"
  then have "(2::int) ^ LENGTH(32) dvd int j * seed_increment"
    by (simp only: word_of_int_eq_0_iff)
  then have "(2::int) ^ 32 dvd int j * seed_increment" by simp
  moreover have "coprime ((2::int) ^ 32) seed_increment"
  proof -
    have "coprime (2::int) seed_increment" by (simp add: seed_increment_def)
    then show ?thesis
      by (rule coprime_power_left_iff [THEN iffD2, OF disjI1])
  qed
  ultimately have "(2::int) ^ 32 dvd int j" by (simp only: coprime_dvd_mult_left_iff)
  then have "(2::int) ^ 32 \<le> int j" using assms(1) by (intro zdvd_imp_le) simp_all
  then show False using assms(2) by simp
qed

lemma draws_not_both_zero:
  assumes "seed32 s" "k < 100" "draw (of_int s) 0 = 0"
  shows "draw (of_int s) (Suc k) \<noteq> 0"
proof
  assume z: "draw (of_int s) (Suc k) = 0"
  have s: "- (2 ^ 53) < s" "s < 2 ^ 32" using assms(1) by (simp_all add: seed32_def)
  have e: "state_after (of_int s) j = of_int (s + int j * seed_increment)" if "j \<le> 101" for j
  proof (rule state_after_exact [OF s(1)])
    have "int j * seed_increment \<le> 101 * seed_increment"
      using that by (intro mult_right_mono) (simp_all add: seed_increment_def)
    then show "s + int j * seed_increment < 2 ^ 53"
      using s(2) by (simp add: seed_increment_def)
  qed
  have "ToInt32 (state_after (of_int s) (Suc 0)) = 0"
    using assms(3) by (rule draw_zero)
  then have a: "(word_of_int (s + int (Suc 0) * seed_increment) :: u32) = 0"
    by (simp only: e [of "Suc 0"] ToInt32_of_int)
  have "ToInt32 (state_after (of_int s) (Suc (Suc k))) = 0"
    using z by (rule draw_zero)
  moreover have "Suc (Suc k) \<le> 101" using assms(2) by simp
  ultimately have b: "(word_of_int (s + int (Suc (Suc k)) * seed_increment) :: u32) = 0"
    by (simp only: e ToInt32_of_int)
  have "s + int (Suc (Suc k)) * seed_increment =
        (s + int (Suc 0) * seed_increment) + int (Suc k) * seed_increment"
    by (simp add: algebra_simps)
  then have "(word_of_int (s + int (Suc (Suc k)) * seed_increment) :: u32) =
        word_of_int (s + int (Suc 0) * seed_increment) + word_of_int (int (Suc k) * seed_increment)"
    by (simp only: wi_hom_add)
  then have "(0::u32) = 0 + word_of_int (int (Suc k) * seed_increment)"
    by (simp only: a b)
  then have "(word_of_int (int (Suc k) * seed_increment) :: u32) = 0"
    by (simp only: add_0_left)
  moreover have "(word_of_int (int (Suc k) * seed_increment) :: u32) \<noteq> 0"
    by (rule multiple_not_zero) (use assms(2) in simp_all)
  ultimately show False by simp
qed

section \<open>The polygon of a track\<close>

lemma track_loop_fst:
  "fst (track_loop i radius rng ps) =
     ps @ map (\<lambda>k. \<lparr>pt_x = jmul (Math_cos (angle k)) (jsub (jadd radius (jmul (draw rng (k - i)) 100)) 50),
                     pt_y = jmul (Math_sin (angle k)) (jsub (jadd radius (jmul (draw rng (k - i)) 100)) 50)\<rparr>) [i..<N]"
proof (induction i radius rng ps rule: track_loop.induct)
  case (1 i radius rng ps)
  show ?case
  proof (cases "i < N")
    case False
    then show ?thesis by (simp add: track_loop.simps)
  next
    case True
    obtain u rng' where m: "mulberry32 rng = (u, rng')" by (cases "mulberry32 rng")
    define p where "p = \<lparr>pt_x = jmul (Math_cos (angle i)) (jsub (jadd radius (jmul u 100)) 50),
                          pt_y = jmul (Math_sin (angle i)) (jsub (jadd radius (jmul u 100)) 50)\<rparr>"
    have u: "u = draw rng 0" using m by (simp add: draw_def state_after_def)
    have r: "rng' = advance rng" using m snd_mulberry32 [of rng] by simp
    have d: "\<And>k. i < k \<Longrightarrow> draw rng' (k - (i + 1)) = draw rng (k - i)"
      by (simp add: draw_def r state_after_advance Suc_diff_Suc)
    have ih: "fst (track_loop (i + 1) radius rng' (ps @ [p])) =
       (ps @ [p]) @
        map (\<lambda>k. \<lparr>pt_x = jmul (Math_cos (angle k)) (jsub (jadd radius (jmul (draw rng' (k - (i + 1))) 100)) 50),
                     pt_y = jmul (Math_sin (angle k)) (jsub (jadd radius (jmul (draw rng' (k - (i + 1))) 100)) 50)\<rparr>) [i + 1..<N]"
      using 1 [OF True refl m [symmetric] refl] by (simp add: p_def angle_def)
    have "track_loop i radius rng ps = track_loop (i + 1) radius rng' (ps @ [p])"
      using True m by (subst track_loop.simps) (simp add: Let_def p_def angle_def)
    then show ?thesis
      using ih True d by (simp add: upt_conv_Cons [of i N] u p_def)
  qed
qed

lemma poly_generateTrack: "poly (generateTrack seed) = map (track_point seed) [0..<N]"
proof -
  obtain u rng where m: "mulberry32 seed = (u, rng)" by (cases "mulberry32 seed")
  have u: "u = draw seed 0" using m by (simp add: draw_def state_after_def)
  have r: "rng = advance seed" using m snd_mulberry32 [of seed] by simp
  have d: "\<And>k. draw rng k = draw seed (Suc k)"
    by (simp add: draw_def r state_after_advance)
  have "poly (generateTrack seed) = fst (track_loop 0 (jadd 300 (jmul u 300)) rng [])"
    by (simp add: generateTrack_def m Let_def split: prod.split)
  then show ?thesis
    by (simp add: track_loop_fst d u track_point_def radial_def)
qed

lemma length_poly: "length (poly (generateTrack seed)) = 100"
  by (simp add: poly_generateTrack N_def)

text \<open>The radius of a point is computed without any rounding error.\<close>

lemma draw_dyadic: "\<exists>n. n < 2 ^ 32 \<and> draw seed k = real n / 2 ^ 32"
proof -
  define w where "w = mix (ToInt32 (state_after seed (Suc k)))"
  have "unat w < 2 ^ 32"
    using unsigned_less [of w, where 'a = nat] by simp
  moreover have "draw seed k = real (unat w) / 2 ^ 32"
    by (simp add: draw_eq to_unit_exact w_def)
  ultimately show ?thesis by blast
qed

lemma radial_exact:
  "radial seed k = 250 + 300 * draw seed 0 + 100 * draw seed (Suc k)"
proof -
  obtain a where a: "a < 2 ^ 32" "draw seed 0 = real a / 2 ^ 32"
    using draw_dyadic [of seed 0] by blast
  obtain b where b: "b < 2 ^ 32" "draw seed (Suc k) = real b / 2 ^ 32"
    using draw_dyadic [of seed "Suc k"] by blast
  have ia: "int a < 4294967296" and ib: "int b < 4294967296" using a(1) b(1) by simp_all
  have ex: "fl (of_int m / 2 ^ 32) = of_int m / 2 ^ 32" if "\<bar>m\<bar> < 2 ^ 53" for m
    using that by (rule fl_dyadic_div) simp
  have 1: "jmul (draw seed 0) 300 = of_int (300 * int a) / 2 ^ 32"
  proof -
    have "\<bar>300 * int a\<bar> < 2 ^ 53" using ia by simp
    then have "fl (of_int (300 * int a) / 2 ^ 32) = of_int (300 * int a) / 2 ^ 32" by (rule ex)
    then show ?thesis by (simp add: jmul_def a(2))
  qed
  have 2: "jadd 300 (of_int (300 * int a) / 2 ^ 32) = of_int (300 * 2 ^ 32 + 300 * int a) / 2 ^ 32"
  proof -
    have "\<bar>300 * 2 ^ 32 + 300 * int a\<bar> < 2 ^ 53" using ia by simp
    then have "fl (of_int (300 * 2 ^ 32 + 300 * int a) / 2 ^ 32) =
        of_int (300 * 2 ^ 32 + 300 * int a) / 2 ^ 32" by (rule ex)
    moreover have "300 + real_of_int (300 * int a) / 2 ^ 32 =
        of_int (300 * 2 ^ 32 + 300 * int a) / 2 ^ 32" by (simp add: field_simps)
    ultimately show ?thesis by (simp only: jadd_def)
  qed
  have 3: "jmul (draw seed (Suc k)) 100 = of_int (100 * int b) / 2 ^ 32"
  proof -
    have "\<bar>100 * int b\<bar> < 2 ^ 53" using ib by simp
    then have "fl (of_int (100 * int b) / 2 ^ 32) = of_int (100 * int b) / 2 ^ 32" by (rule ex)
    then show ?thesis by (simp add: jmul_def b(2))
  qed
  have 4: "jadd (of_int (300 * 2 ^ 32 + 300 * int a) / 2 ^ 32) (of_int (100 * int b) / 2 ^ 32) =
      of_int (300 * 2 ^ 32 + 300 * int a + 100 * int b) / 2 ^ 32"
  proof -
    have "\<bar>300 * 2 ^ 32 + 300 * int a + 100 * int b\<bar> < 2 ^ 53" using ia ib by simp
    then have "fl (of_int (300 * 2 ^ 32 + 300 * int a + 100 * int b) / 2 ^ 32) =
        of_int (300 * 2 ^ 32 + 300 * int a + 100 * int b) / 2 ^ 32" by (rule ex)
    moreover have "real_of_int (300 * 2 ^ 32 + 300 * int a) / 2 ^ 32 + real_of_int (100 * int b) / 2 ^ 32 =
        of_int (300 * 2 ^ 32 + 300 * int a + 100 * int b) / 2 ^ 32" by (simp add: field_simps)
    ultimately show ?thesis by (simp only: jadd_def)
  qed
  have 5: "jsub (of_int (300 * 2 ^ 32 + 300 * int a + 100 * int b) / 2 ^ 32) 50 =
      of_int (250 * 2 ^ 32 + 300 * int a + 100 * int b) / 2 ^ 32"
  proof -
    have "\<bar>250 * 2 ^ 32 + 300 * int a + 100 * int b\<bar> < 2 ^ 53" using ia ib by simp
    then have "fl (of_int (250 * 2 ^ 32 + 300 * int a + 100 * int b) / 2 ^ 32) =
        of_int (250 * 2 ^ 32 + 300 * int a + 100 * int b) / 2 ^ 32" by (rule ex)
    moreover have "real_of_int (300 * 2 ^ 32 + 300 * int a + 100 * int b) / 2 ^ 32 - 50 =
        of_int (250 * 2 ^ 32 + 300 * int a + 100 * int b) / 2 ^ 32" by (simp add: field_simps)
    ultimately show ?thesis by (simp only: jsub_def)
  qed
  have "radial seed k = of_int (250 * 2 ^ 32 + 300 * int a + 100 * int b) / 2 ^ 32"
    by (simp only: radial_def 1 2 3 4 5)
  also have "\<dots> = 250 + 300 * draw seed 0 + 100 * draw seed (Suc k)"
    by (simp add: a(2) b(2) field_simps)
  finally show ?thesis .
qed

lemma radial_range: "250 \<le> radial seed k" "radial seed k < 650"
  using draw_range [of seed 0] draw_range [of seed "Suc k"] by (simp_all add: radial_exact)

lemma draw_zero_or_pos: "draw seed k = 0 \<or> 1 / 4294967296 \<le> draw seed k"
  using to_unit_pos [of "mix (ToInt32 (state_after seed (Suc k)))"]
  by (cases "mix (ToInt32 (state_after seed (Suc k))) = 0") (simp_all add: draw_eq to_unit_exact)

lemma radial_lower:
  assumes "seed32 s" "k < 100"
  shows "250 + 100 / 4294967296 \<le> radial (of_int s) k"
proof (cases "draw (of_int s) 0 = 0")
  case True
  then have "draw (of_int s) (Suc k) \<noteq> 0"
    using assms by (intro draws_not_both_zero)
  then have "1 / 4294967296 \<le> draw (of_int s) (Suc k)"
    using draw_zero_or_pos [of "of_int s" "Suc k"] by simp
  then show ?thesis using True by (simp add: radial_exact)
next
  case False
  then have "1 / 4294967296 \<le> draw (of_int s) 0"
    using draw_zero_or_pos [of "of_int s" 0] by simp
  then show ?thesis using draw_range(1) [of "of_int s" "Suc k"] by (simp add: radial_exact)
qed

section \<open>The generator of a track is its own\<close>

text \<open>
  Run in any store, \<open>generateTrack_in\<close> returns the track that \<open>generateTrack\<close>
  computes from the seed, and changes the store only by the variable of the closure it
  has created, left at its state after 101 draws.
\<close>

lemma track_loop_in_eq:
  "track_loop_in i radius rng st ps =
     (fst (track_loop i radius (cells st rng) ps),
      st\<lparr>cells := (cells st)(rng := snd (track_loop i radius (cells st rng) ps))\<rparr>)"
proof (induction i radius rng st ps rule: track_loop_in.induct)
  case (1 i radius rng st ps)
  show ?case
  proof (cases "i < N")
    case False
    then show ?thesis by (simp add: track_loop_in.simps track_loop.simps)
  next
    case True
    obtain u seed' where m: "mulberry32 (cells st rng) = (u, seed')"
      by (cases "mulberry32 (cells st rng)")
    define st' where "st' = st\<lparr>cells := (cells st)(rng := seed')\<rparr>"
    define p where "p = \<lparr>pt_x = jmul (Math_cos (jmul (jdiv (real i) (real N)) TAU))
                                 (jsub (jadd radius (jmul u 100)) 50),
                          pt_y = jmul (Math_sin (jmul (jdiv (real i) (real N)) TAU))
                                 (jsub (jadd radius (jmul u 100)) 50)\<rparr>"
    have c: "call_rng rng st = (u, st')"
      by (simp add: call_rng_def m st'_def)
    have ih: "track_loop_in (i + 1) radius rng st' (ps @ [p]) =
      (fst (track_loop (i + 1) radius (cells st' rng) (ps @ [p])),
       st'\<lparr>cells := (cells st')(rng := snd (track_loop (i + 1) radius (cells st' rng) (ps @ [p])))\<rparr>)"
      unfolding p_def by (rule 1 [OF True refl c [symmetric] refl]) (rule refl)
    have l: "track_loop_in i radius rng st ps = track_loop_in (i + 1) radius rng st' (ps @ [p])"
      using True c by (subst track_loop_in.simps) (simp add: Let_def p_def)
    have r: "track_loop i radius (cells st rng) ps = track_loop (i + 1) radius seed' (ps @ [p])"
      using True m by (subst track_loop.simps) (simp add: Let_def p_def)
    have e: "cells st' rng = seed'" by (simp add: st'_def)
    show ?thesis
      by (simp only: l ih r e) (simp add: st'_def fun_upd_def cong: if_cong)
  qed
qed

lemma track_loop_snd: "snd (track_loop i radius rng ps) = state_after rng (N - i)"
proof (induction i radius rng ps rule: track_loop.induct)
  case (1 i radius rng ps)
  show ?case
  proof (cases "i < N")
    case False
    then show ?thesis by (simp add: track_loop.simps state_after_def)
  next
    case True
    obtain u rng' where m: "mulberry32 rng = (u, rng')" by (cases "mulberry32 rng")
    have r: "rng' = advance rng" using m snd_mulberry32 [of rng] by simp
    have "snd (track_loop i radius rng ps) =
        snd (track_loop (i + 1) radius rng'
          (ps @ [\<lparr>pt_x = jmul (Math_cos (jmul (jdiv (real i) (real N)) TAU))
                           (jsub (jadd radius (jmul u 100)) 50),
                  pt_y = jmul (Math_sin (jmul (jdiv (real i) (real N)) TAU))
                           (jsub (jadd radius (jmul u 100)) 50)\<rparr>]))"
      using True m by (subst track_loop.simps) (simp add: Let_def)
    also have "\<dots> = state_after rng' (N - (i + 1))"
      by (rule 1 [OF True refl m [symmetric] refl]) (rule refl)
    also have "\<dots> = state_after rng (Suc (N - (i + 1)))"
      by (simp only: r state_after_advance)
    also have "Suc (N - (i + 1)) = N - i" using True by simp
    finally show ?thesis .
  qed
qed

lemma generateTrack_in_eq:
  "generateTrack_in seed st =
     (generateTrack seed,
      st\<lparr>cells := (cells st)(next_cell st := state_after seed 101),
         next_cell := Suc (next_cell st)\<rparr>)"
proof -
  obtain u rng where m: "mulberry32 seed = (u, rng)" by (cases "mulberry32 seed")
  have r: "rng = advance seed" using m snd_mulberry32 [of seed] by simp
  obtain ps rng' where t: "track_loop 0 (jadd 300 (jmul u 300)) rng [] = (ps, rng')"
    by (cases "track_loop 0 (jadd 300 (jmul u 300)) rng []")
  have "rng' = state_after rng (N - 0)"
    using track_loop_snd [of 0 "jadd 300 (jmul u 300)" rng "[]"] t by simp
  then have f: "rng' = state_after seed 101"
    by (simp add: r state_after_advance N_def)
  show ?thesis
    by (simp add: generateTrack_in_def generateTrack_def new_mulberry32_def call_rng_def
        track_loop_in_eq m t f Let_def)
qed

section \<open>Rounding errors of the coordinates\<close>

lemma fl_error: "\<bar>fl x - x\<bar> \<le> (\<bar>x\<bar> + 1) / 2 ^ 53"
proof (cases "\<bar>x\<bar> < 2 powr - 1022")
  case True
  then have "\<bar>fl x - x\<bar> \<le> 2 powr - 1075" by (rule fl_error_subnormal)
  also have "\<dots> \<le> 2 powr - 53" by (rule powr_mono) simp_all
  also have "\<dots> = 1 / 2 ^ 53" by (simp add: powr_neg_numeral)
  also have "\<dots> \<le> (\<bar>x\<bar> + 1) / 2 ^ 53" by (simp add: divide_right_mono)
  finally show ?thesis .
next
  case False
  then have "2 powr - 1022 \<le> \<bar>x\<bar>" by simp
  then have "\<bar>fl x - x\<bar> \<le> 2 powr - 53 * \<bar>x\<bar>" by (rule fl_error_normal)
  also have "\<dots> = \<bar>x\<bar> / 2 ^ 53" by (simp add: powr_neg_numeral)
  also have "\<dots> \<le> (\<bar>x\<bar> + 1) / 2 ^ 53" by (simp add: divide_right_mono)
  finally show ?thesis .
qed

lemma coord_error:
  assumes "\<bar>t\<bar> \<le> 1" "0 \<le> r" "r \<le> 650"
  shows "\<bar>jmul (fl t) r - r * t\<bar> \<le> 2601 / 2 ^ 53"
proof -
  define c where "c = fl t"
  have "\<bar>c - t\<bar> \<le> (\<bar>t\<bar> + 1) / 2 ^ 53" unfolding c_def by (rule fl_error)
  also have "\<dots> \<le> 2 / 2 ^ 53" using assms(1) by (simp add: divide_right_mono)
  finally have ct: "\<bar>c - t\<bar> \<le> 2 / 2 ^ 53" .
  moreover have "(2::real) / 2 ^ 53 \<le> 1" by simp
  ultimately have "\<bar>c - t\<bar> \<le> 1" by (rule order_trans)
  then have c2: "\<bar>c\<bar> \<le> 2" using assms(1) by linarith
  have "\<bar>c * r\<bar> = \<bar>c\<bar> * r" using assms(2) by (simp add: abs_mult)
  also have "\<dots> \<le> 2 * 650" using c2 assms(2,3) by (intro mult_mono) simp_all
  finally have cr: "\<bar>c * r\<bar> \<le> 1300" by simp
  have "\<bar>fl (c * r) - c * r\<bar> \<le> (\<bar>c * r\<bar> + 1) / 2 ^ 53" by (rule fl_error)
  also have "\<dots> \<le> 1301 / 2 ^ 53" using cr by (simp add: divide_right_mono)
  finally have e1: "\<bar>fl (c * r) - c * r\<bar> \<le> 1301 / 2 ^ 53" .
  have "c * r - r * t = r * (c - t)" by (simp add: algebra_simps)
  then have "\<bar>c * r - r * t\<bar> = \<bar>r\<bar> * \<bar>c - t\<bar>" by (simp only: abs_mult)
  then have "\<bar>c * r - r * t\<bar> = r * \<bar>c - t\<bar>" using assms(2) by simp
  also have "\<dots> \<le> 650 * (2 / 2 ^ 53)" using ct assms(2,3) by (intro mult_mono) simp_all
  finally have e2: "\<bar>c * r - r * t\<bar> \<le> 1300 / 2 ^ 53" by simp
  have "\<bar>fl (c * r) - r * t\<bar> \<le> \<bar>fl (c * r) - c * r\<bar> + \<bar>c * r - r * t\<bar>" by simp
  then have "\<bar>fl (c * r) - r * t\<bar> \<le> 2601 / 2 ^ 53" using e1 e2 by simp
  then show ?thesis by (simp add: jmul_def c_def)
qed

lemma distance_error:
  "\<bar>distance (track_point seed k) - radial seed k\<bar> \<le> 5202 / 2 ^ 53"
proof -
  define r where "r = radial seed k"
  define a where "a = angle k"
  define px where "px = jmul (Math_cos a) r"
  define py where "py = jmul (Math_sin a) r"
  have r: "0 \<le> r" "r \<le> 650" using radial_range [of seed k] by (simp_all add: r_def)
  have ex: "\<bar>px - r * cos a\<bar> \<le> 2601 / 2 ^ 53"
    unfolding px_def Math_cos_def using _ r by (rule coord_error) simp
  have ey: "\<bar>py - r * sin a\<bar> \<le> 2601 / 2 ^ 53"
    unfolding py_def Math_sin_def using _ r by (rule coord_error) simp
  define z where "z = Complex px py"
  define z0 where "z0 = Complex (r * cos a) (r * sin a)"
  have d: "distance (track_point seed k) = cmod z"
    by (simp add: distance_def track_point_def z_def px_def py_def r_def a_def cmod_def)
  have "z0 = of_real r * cis a" by (simp add: z0_def complex_eq_iff)
  then have "cmod z0 = \<bar>r\<bar>" by (simp add: norm_mult)
  then have n0: "cmod z0 = r" using r(1) by simp
  have "\<bar>cmod z - cmod z0\<bar> \<le> cmod (z - z0)" by (rule norm_triangle_ineq3)
  also have "\<dots> \<le> \<bar>Re (z - z0)\<bar> + \<bar>Im (z - z0)\<bar>" by (rule cmod_le)
  also have "\<dots> = \<bar>px - r * cos a\<bar> + \<bar>py - r * sin a\<bar>" by (simp add: z_def z0_def)
  also have "\<dots> \<le> 2601 / 2 ^ 53 + 2601 / 2 ^ 53" using ex ey by (rule add_mono)
  finally have "\<bar>cmod z - cmod z0\<bar> \<le> 5202 / 2 ^ 53" by simp
  then show ?thesis by (simp only: d n0 r_def)
qed

lemma distance_track_point:
  assumes "seed32 s" "k < 100"
  shows "250 < distance (track_point (of_int s) k)" "distance (track_point (of_int s) k) < 651"
proof -
  have e: "\<bar>distance (track_point (of_int s) k) - radial (of_int s) k\<bar> \<le> 5202 / 2 ^ 53"
    by (rule distance_error)
  have lo: "250 + 100 / 4294967296 \<le> radial (of_int s) k"
    using assms by (rule radial_lower)
  have hi: "radial (of_int s) k < 650" by (rule radial_range)
  have "(5202::real) / 2 ^ 53 \<le> 1 / 4294967296" by simp
  with e have e': "\<bar>distance (track_point (of_int s) k) - radial (of_int s) k\<bar> \<le> 1 / 4294967296"
    by (rule order_trans)
  show "250 < distance (track_point (of_int s) k)" using e' lo by linarith
  show "distance (track_point (of_int s) k) < 651" using e' hi by linarith
qed

section \<open>Facts about the simulation step\<close>

lemma simulate_no_keys:
  "no_keys ks \<Longrightarrow> simulate ks dt c =
     c\<lparr>car_v := jmul (car_v c) damping_factor,
       car_x := jadd (car_x c) (jmul (jmul (Math_sin (car_yaw c)) (jmul (car_v c) damping_factor)) dt),
       car_y := jsub (car_y c) (jmul (jmul (Math_cos (car_yaw c)) (jmul (car_v c) damping_factor)) dt)\<rparr>"
  by (simp add: simulate_def no_keys_def Let_def)

lemma fl_one: "fl 1 = 1"
  using fl_of_int [of 1] by simp

lemma fl_98: "fl 9.8 = 5516909543528858 / 2 ^ 49"
proof -
  have "fl 9.8 = of_int (rne (9.8 / 2 powr of_int (max (3 - 52) (- 1074)))) *
                2 powr of_int (max (3 - 52) (- 1074))"
    by (rule fl_eval) simp_all
  moreover have "rne (9.8 * 2 ^ 49) = 5516909543528858"
    by (simp add: rne_def Let_def)
  ultimately show ?thesis by (simp add: powr_minus field_simps)
qed

lemma damped_10: "jmul 10 damping_factor = fl 9.8"
proof -
  define x :: real where "x = 10 * (8827055269646172 / 2 ^ 53)"
  have "fl x = of_int (rne (x / 2 powr of_int (max (3 - 52) (- 1074)))) *
                2 powr of_int (max (3 - 52) (- 1074))"
    by (rule fl_eval) (simp_all add: x_def)
  moreover have "rne (x * 2 ^ 49) = 5516909543528858"
    by (simp add: rne_def Let_def x_def)
  ultimately have "fl x = 5516909543528858 / 2 ^ 49" by (simp add: powr_minus field_simps)
  then have "fl x = fl 9.8" by (simp only: fl_98)
  then show ?thesis by (simp only: jmul_def damping_factor_value x_def)
qed

lemma fl_tiny: "fl (2 powr - 1074 * damping_factor) = 2 powr - 1074"
proof -
  define d :: real where "d = damping_factor"
  define x :: real where "x = 2 powr - 1074 * d"
  have dv: "d = 8827055269646172 / 2 ^ 53" by (simp only: d_def damping_factor_value)
  have d: "1 / 2 < d" "d < 1" by (simp_all add: dv)
  have h: "(2::real) powr of_int (- 1075) = 2 powr - 1074 * (1 / 2)"
    using powr_diff [of "2::real" "- 1074" 1] by simp
  have lo: "2 powr of_int (- 1075) \<le> \<bar>x\<bar>"
    unfolding h x_def using d by (simp add: abs_mult)
  have hi: "\<bar>x\<bar> < 2 powr (of_int (- 1075) + 1)"
    using d by (simp add: x_def abs_mult)
  have "fl x = of_int (rne (x / 2 powr of_int (max (- 1075 - 52) (- 1074)))) *
                2 powr of_int (max (- 1075 - 52) (- 1074))"
    using lo hi by (rule fl_eval)
  moreover have "x / 2 powr - 1074 = d" by (simp add: x_def)
  moreover have "rne d = 1" using d by (simp add: rne_def Let_def) linarith
  ultimately have "fl x = 2 powr - 1074" by simp
  then show ?thesis by (simp only: x_def d_def)
qed

lemma damp_pos:
  assumes "25 * 2 powr - 1074 \<le> v"
  shows "0 < fl (v * damping_factor)" "fl (v * damping_factor) < v"
proof -
  define u :: real where "u = 2 powr - 1074"
  define d :: real where "d = damping_factor"
  define x where "x = v * d"
  have dv: "d = 8827055269646172 / 2 ^ 53" by (simp only: d_def damping_factor_value)
  have u: "0 < u" by (simp add: u_def)
  have v: "25 * u \<le> v" using assms by (simp add: u_def)
  have vpos: "0 < v" using u v by linarith
  have h: "(2::real) powr - 1075 = u / 2"
    using powr_diff [of "2::real" "- 1074" 1] by (simp add: u_def)
  have xl: "v / 2 < x" and xu: "x + v / 50 < v"
    using vpos by (simp_all add: x_def dv field_simps)
  have "0 < fl x \<and> fl x < v"
  proof (cases "\<bar>x\<bar> < 2 powr - 1022")
    case True
    then have "\<bar>fl x - x\<bar> \<le> u / 2" unfolding h [symmetric] by (rule fl_error_subnormal)
    then show ?thesis using xl xu v u by linarith
  next
    case False
    then have "2 powr - 1022 \<le> \<bar>x\<bar>" by simp
    then have "\<bar>fl x - x\<bar> \<le> 2 powr - 53 * \<bar>x\<bar>" by (rule fl_error_normal)
    moreover have "\<bar>x\<bar> = x" using xl vpos by simp
    moreover have "(2::real) powr - 53 * x \<le> x / 100"
      using xl vpos by (simp add: powr_neg_numeral field_simps)
    ultimately have "\<bar>fl x - x\<bar> \<le> x / 100" by simp
    then show ?thesis using xl xu vpos by linarith
  qed
  then show "0 < fl (v * damping_factor)" "fl (v * damping_factor) < v"
    by (simp_all only: x_def d_def)
qed

lemma simulate_v: "no_keys ks \<Longrightarrow> car_v (simulate ks dt c) = jmul (car_v c) damping_factor"
  by (simp add: simulate_no_keys)

lemma rne_near:
  assumes "of_int k - 1 / 2 < y" "y < of_int k"
  shows "rne y = k"
proof -
  have "\<lfloor>y\<rfloor> = k - 1"
    using assms by (intro floor_unique) simp_all
  then show ?thesis using assms by (simp add: rne_def Let_def)
qed

lemma damp_small:
  assumes "is_double v" "0 < v" "v < 25 * 2 powr - 1074"
  shows "fl (v * damping_factor) = v"
proof -
  define u :: real where "u = 2 powr - 1074"
  define d :: real where "d = damping_factor"
  have dv: "d = 8827055269646172 / 2 ^ 53" by (simp only: d_def damping_factor_value)
  have u: "0 < u" by (simp add: u_def)
  have "25 * u \<le> 2 powr 5 * 2 powr - 1074" by (simp add: u_def)
  also have "\<dots> = 2 powr (5 + - 1074)" by (simp only: powr_add)
  also have "\<dots> \<le> 2 powr - 1022" by (rule powr_mono) simp_all
  finally have small: "25 * u \<le> 2 powr - 1022" .
  have v0: "v \<noteq> 0" using assms(2) by simp
  have "\<bar>v\<bar> < 2 powr - 1022" using assms(2,3) small by (simp add: u_def)
  then have "expo v = - 1074" using v0 by (simp add: expo_subnormal)
  then have "fl v = of_int (rne (v / u)) * u"
    using v0 by (simp add: fl_def u_def)
  then have vk: "v = of_int (rne (v / u)) * u"
    using assms(1) by (simp add: is_double_def)
  define k where "k = rne (v / u)"
  have v: "v = of_int k * u" using vk by (simp add: k_def)
  have "0 < real_of_int k * u" "real_of_int k * u < 25 * u"
    using assms(2,3) v by (simp_all add: u_def)
  then have "0 < real_of_int k" "real_of_int k < 25"
    using u by (simp_all add: zero_less_mult_iff)
  then have k: "1 \<le> k" "k \<le> 24" by linarith+
  then have kr: "1 \<le> real_of_int k" "real_of_int k \<le> 24" by simp_all
  define x where "x = v * d"
  have xk: "x = of_int k * d * u" by (simp add: x_def v)
  have "0 < x" "x < v" using assms(2) by (simp_all add: x_def dv)
  then have x0: "x \<noteq> 0" and "\<bar>x\<bar> < 2 powr - 1022"
    using assms(3) small by (simp_all add: u_def)
  then have "expo x = - 1074" by (simp add: expo_subnormal)
  then have "fl x = of_int (rne (x / u)) * u"
    using x0 by (simp add: fl_def u_def)
  moreover have "x / u = of_int k * d" using u by (simp add: xk)
  moreover have "rne (of_int k * d) = k"
    using kr by (intro rne_near) (simp_all add: dv)
  ultimately have "fl x = v" by (simp add: v)
  then show ?thesis by (simp only: x_def d_def)
qed

lemma damp_double_pos:
  assumes "is_double v" "0 < v"
  shows "0 < jmul v damping_factor \<and> jmul v damping_factor \<le> v \<and>
         (jmul v damping_factor < v \<longleftrightarrow> 25 * 2 powr - 1074 \<le> v)"
proof (cases "25 * 2 powr - 1074 \<le> v")
  case True
  then have "0 < fl (v * damping_factor)" "fl (v * damping_factor) < v" by (rule damp_pos)+
  then show ?thesis using True by (simp add: jmul_def)
next
  case False
  then have "v < 25 * 2 powr - 1074" by simp
  with assms have "fl (v * damping_factor) = v" by (rule damp_small)
  then show ?thesis using False assms(2) by (simp add: jmul_def)
qed

lemma is_double_minus: "is_double v \<Longrightarrow> is_double (- v)"
  by (simp add: is_double_def fl_minus)

lemma jmul_minus: "jmul (- v) w = - jmul v w"
  using fl_minus [of "v * w"] by (simp add: jmul_def)

lemma damp_double:
  assumes "is_double v" "v \<noteq> 0"
  shows "\<bar>jmul v damping_factor\<bar> \<le> \<bar>v\<bar> \<and> sgn (jmul v damping_factor) = sgn v \<and>
         (\<bar>jmul v damping_factor\<bar> < \<bar>v\<bar> \<longleftrightarrow> 25 * 2 powr - 1074 \<le> \<bar>v\<bar>)"
proof (cases "0 < v")
  case True
  then show ?thesis using damp_double_pos [OF assms(1) True] by simp
next
  case False
  then have n: "0 < - v" using assms(2) by simp
  show ?thesis
    using damp_double_pos [OF is_double_minus [OF assms(1)] n] n by (simp add: jmul_minus)
qed

lemma is_double_jmul: "is_double (jmul a b)"
  by (simp add: jmul_def is_double_fl)

lemma speed_invariant:
  assumes "no_keys ks" "is_double (car_v c)" "car_v c \<noteq> 0"
  shows "is_double (car_v ((simulate ks dt ^^ n) c)) \<and>
         sgn (car_v ((simulate ks dt ^^ n) c)) = sgn (car_v c)"
proof (induction n)
  case 0
  then show ?case using assms(2) by simp
next
  case (Suc n)
  define w where "w = car_v ((simulate ks dt ^^ n) c)"
  have w: "is_double w" "sgn w = sgn (car_v c)" using Suc by (simp_all add: w_def)
  then have "w \<noteq> 0" using assms(3) by (auto simp: sgn_zero_iff)
  then have "sgn (jmul w damping_factor) = sgn w" using damp_double [OF w(1)] by simp
  then show ?case
    using w(2) by (simp add: simulate_v [OF assms(1)] is_double_jmul w_def)
qed

lemma fl_98_near: "\<bar>fl 9.8 - 9.8\<bar> \<le> 1 / 2 ^ 50"
proof -
  define w where "w = fl 9.8"
  have "w = 5516909543528858 / 2 ^ 49" by (simp only: w_def fl_98)
  then have "\<bar>w - 9.8\<bar> \<le> 1 / 2 ^ 50" by simp
  then show ?thesis by (simp only: w_def)
qed

lemma simulate_speed_10:
  assumes "no_keys ks" and "car_v c = 10" and "car_yaw c = 0"
    and "car_x c = 0" and "car_y c = 0"
  shows "car_x (simulate ks 1 c) = 0 \<and> car_y (simulate ks 1 c) = - fl 9.8 \<and>
         car_v (simulate ks 1 c) = fl 9.8"
proof -
  define w where "w = fl 9.8"
  have v: "jmul (car_v c) damping_factor = w"
    by (simp only: assms(2) damped_10 w_def)
  have s: "Math_sin 0 = 0" by (simp add: Math_sin_def fl_zero)
  have c: "Math_cos 0 = 1" by (simp add: Math_cos_def fl_one)
  have i: "fl w = w" unfolding w_def by (rule fl_idem)
  have x: "jadd 0 (jmul (jmul 0 w) 1) = 0"
    by (simp add: jadd_def jmul_def fl_zero)
  have y: "jsub 0 (jmul (jmul 1 w) 1) = - w"
    by (simp add: jsub_def jmul_def i fl_minus)
  show ?thesis
    unfolding w_def [symmetric]
    by (simp add: simulate_no_keys [OF assms(1)] assms(3,4,5) v s c x y)
qed

section \<open>Bounds\<close>

lemma fold_num_min:
  "fold (\<lambda>x acc. num_min acc (Finite x)) xs (Finite a) = Finite (Min (insert a (set xs)))"
proof (induction xs arbitrary: a)
  case Nil
  then show ?case by simp
next
  case (Cons x xs)
  have "Min (insert (min a x) (set xs)) = Min (insert a (insert x (set xs)))"
    by (cases "set xs = {}") (simp_all add: min.assoc)
  then show ?case by (simp add: Cons.IH del: Min_insert)
qed

lemma Math_min_Cons: "Math_min (x # xs) = Finite (Min (set (x # xs)))"
  by (simp add: Math_min_def fold_num_min)

lemma fold_num_max:
  "fold (\<lambda>x acc. num_max acc (Finite x)) xs (Finite a) = Finite (Max (insert a (set xs)))"
proof (induction xs arbitrary: a)
  case Nil
  then show ?case by simp
next
  case (Cons x xs)
  have "Max (insert (max a x) (set xs)) = Max (insert a (insert x (set xs)))"
    by (cases "set xs = {}") (simp_all add: max.assoc)
  then show ?case by (simp add: Cons.IH del: Max_insert)
qed

lemma Math_max_Cons: "Math_max (x # xs) = Finite (Max (set (x # xs)))"
  by (simp add: Math_max_def fold_num_max)

lemma Math_min_nonempty: "xs \<noteq> [] \<Longrightarrow> Math_min xs = Finite (Min (set xs))"
  by (cases xs) (simp, simp only: Math_min_Cons)

lemma Math_max_nonempty: "xs \<noteq> [] \<Longrightarrow> Math_max xs = Finite (Max (set xs))"
  by (cases xs) (simp, simp only: Math_max_Cons)

lemma bounds_generateTrack:
  "bounds (generateTrack seed) =
     \<lparr>minX = Math_min (map pt_x (poly (generateTrack seed))),
      maxX = Math_max (map pt_x (poly (generateTrack seed))),
      minY = Math_min (map pt_y (poly (generateTrack seed))),
      maxY = Math_max (map pt_y (poly (generateTrack seed)))\<rparr>"
  by (simp add: generateTrack_def Let_def split: prod.split)

section \<open>Claims\<close>

text \<open>
  C1. Track generation is pure and deterministic: two calls of \<^verbatim>\<open>generateTrack\<close> with
  the same seed, made in any two states of the program (for instance one after the
  other), return the same polygon, the same bounds and the same half-width. A call reads
  no generator but the one it creates from the seed, and leaves the variables of all
  other generators as they were.
\<close>

theorem generateTrack_deterministic:
  "poly (fst (generateTrack_in seed st1)) = poly (fst (generateTrack_in seed st2)) \<and>
   bounds (fst (generateTrack_in seed st1)) = bounds (fst (generateTrack_in seed st2)) \<and>
   halfW (fst (generateTrack_in seed st1)) = halfW (fst (generateTrack_in seed st2)) \<and>
   snd (generateTrack_in seed st1) =
     st1\<lparr>cells := (cells st1)(next_cell st1 := state_after seed 101),
         next_cell := Suc (next_cell st1)\<rparr>"
  by (simp add: generateTrack_in_eq)

theorem generateTrack_deterministic_witness:
  "poly (fst (generateTrack_in 42 empty_store)) =
     poly (fst (generateTrack_in 42 (snd (generateTrack_in 42 empty_store)))) \<and>
   bounds (fst (generateTrack_in 42 empty_store)) =
     bounds (fst (generateTrack_in 42 (snd (generateTrack_in 42 empty_store)))) \<and>
   halfW (fst (generateTrack_in 42 empty_store)) =
     halfW (fst (generateTrack_in 42 (snd (generateTrack_in 42 empty_store)))) \<and>
   length (poly (fst (generateTrack_in 42 empty_store))) = 100"
  using generateTrack_deterministic [of 42 empty_store "snd (generateTrack_in 42 empty_store)"]
  by (simp add: generateTrack_in_eq length_poly)

text \<open>
  C2, as stated: for every seed and every number of draws, the numbers drawn equal those of
  the reference generator with a wrapping 32-bit counter. This fails: the code's
  accumulator is a double that is never wrapped, and from \<open>2^53\<close> on the addition rounds.
  With seed 0 the accumulator passes \<open>2^53\<close> at draw number 4917759, where the exact sum
  9007199260973067 is rounded to 9007199260973068.
\<close>

theorem mulberry32_diverges_from_reference:
  "draws 4917759 0 \<noteq> ref_draws 4917759 (ToInt32 0)"
proof
  assume "draws 4917759 0 = ref_draws 4917759 (ToInt32 0)"
  then have "draws 4917759 0 ! 4917758 = ref_draws 4917759 (ToInt32 0) ! 4917758" by simp
  then have "draw 0 4917758 = fst (ref_mulberry32 ((ref_advance ^^ 4917758) (ToInt32 0)))"
    by (simp add: draws_nth ref_draws_nth)
  then show False using to_unit_neq by (simp only: draw_diverge ref_draw_diverge)
qed

text \<open>
  C2, amended: for every 32-bit seed and every number \<open>n\<close> of draws for which the
  accumulator \<open>seed + n * 0x6d2b79f5\<close> stays below \<open>2^53\<close>, the \<open>n\<close> numbers drawn
  equal those of the reference generator, and the accumulator reduced modulo \<open>2^32\<close> is
  the reference counter.
\<close>

theorem mulberry32_refines_reference:
  assumes "seed32 s" and "s + int n * seed_increment < 2 ^ 53"
  shows "draws n (of_int s) = ref_draws n (ToInt32 (of_int s)) \<and>
         ToInt32 (state_after (of_int s) n) = (ref_advance ^^ n) (ToInt32 (of_int s))"
proof -
  have lo: "- (2 ^ 53) < s" using assms(1) by (simp add: seed32_def)
  show ?thesis
    using draws_refine [OF lo assms(2)] state_refines [OF lo assms(2)] by simp
qed

theorem mulberry32_refines_reference_witness:
  "seed32 42 \<and> 42 + int 101 * seed_increment < 2 ^ 53 \<and>
   draws 101 (of_int 42) = ref_draws 101 (ToInt32 (of_int 42)) \<and>
   ToInt32 (state_after (of_int 42) 101) = (ref_advance ^^ 101) (ToInt32 (of_int 42))"
proof -
  have a: "seed32 42" by (simp add: seed32_def)
  have b: "42 + int 101 * seed_increment < 2 ^ 53" by (simp add: seed_increment_def)
  show ?thesis using mulberry32_refines_reference [OF a b] a b by blast
qed

text \<open>
  C3. For every 32-bit seed, every point of the generated polygon lies at a distance from
  the origin in \<open>[250, 700)\<close>. The radius of the point is computed exactly: it is the sum
  of a base radius in \<open>[300, 600)\<close> and a perturbation in \<open>[-50, 50)\<close>; the rounding of
  the two coordinates moves the distance by at most \<open>5202 / 2^53\<close>. The lower bound
  holds because a draw is 0 only when the counter is 0 modulo \<open>2^32\<close>, which cannot
  happen twice within 101 draws.
\<close>

theorem track_radius_bounds:
  assumes "seed32 s" and "p \<in> set (poly (generateTrack (of_int s)))"
  shows "250 \<le> distance p \<and> distance p < 700 \<and>
         (\<exists>base pert. 300 \<le> base \<and> base < 600 \<and> - 50 \<le> pert \<and> pert < 50 \<and>
                       \<bar>distance p - (base + pert)\<bar> \<le> 5202 / 2 ^ 53)"
proof -
  obtain k where k: "k < 100" and p: "p = track_point (of_int s) k"
    using assms(2) by (auto simp: poly_generateTrack N_def)
  define base where "base = 300 + 300 * draw (of_int s) 0"
  define pert where "pert = 100 * draw (of_int s) (Suc k) - 50"
  have r: "radial (of_int s) k = base + pert"
    by (simp add: radial_exact base_def pert_def)
  have b: "300 \<le> base" "base < 600"
    using draw_range [of "of_int s" 0] by (simp_all add: base_def)
  have q: "- 50 \<le> pert" "pert < 50"
    using draw_range [of "of_int s" "Suc k"] by (simp_all add: pert_def)
  have e: "\<bar>distance p - (base + pert)\<bar> \<le> 5202 / 2 ^ 53"
    unfolding p r [symmetric] by (rule distance_error)
  have "250 < distance p" "distance p < 651"
    unfolding p using assms(1) k by (rule distance_track_point)+
  then have "250 \<le> distance p" "distance p < 700" by simp_all
  then show ?thesis using b q e by blast
qed

theorem track_radius_bounds_witness:
  "seed32 42 \<and> 250 \<le> distance (poly (generateTrack (of_int 42)) ! 0) \<and>
   distance (poly (generateTrack (of_int 42)) ! 0) < 700"
proof -
  have a: "seed32 42" by (simp add: seed32_def)
  have "poly (generateTrack (of_int 42)) ! 0 \<in> set (poly (generateTrack (of_int 42)))"
    by (rule nth_mem) (simp add: length_poly)
  then show ?thesis using track_radius_bounds [OF a] a by blast
qed

text \<open>
  C4. A car with speed 10, heading 0 and position \<open>(0, 0)\<close>, stepped once with
  \<open>dt = 1\<close> and no key held, ends at \<open>(0, -9.8)\<close>, where 9.8 is the double that the
  literal denotes: the damping comes before the integration, and the damped speed
  \<open>10 * 0.98\<close> rounds to that double.
\<close>

theorem simulate_example:
  assumes "no_keys ks" and "car_v c = 10" and "car_yaw c = 0"
    and "car_x c = 0" and "car_y c = 0"
  shows "car_x (simulate ks 1 c) = 0 \<and> car_y (simulate ks 1 c) = - fl 9.8 \<and>
         car_v (simulate ks 1 c) = fl 9.8 \<and> \<bar>fl 9.8 - 9.8\<bar> \<le> 1 / 2 ^ 50"
  using simulate_speed_10 [OF assms] fl_98_near by (simp only: simp_thms)

theorem simulate_example_witness:
  "no_keys released \<and> car_v moving_car = 10 \<and> car_yaw moving_car = 0 \<and>
   car_x moving_car = 0 \<and> car_y moving_car = 0 \<and>
   car_x (simulate released 1 moving_car) = 0 \<and>
   car_y (simulate released 1 moving_car) = - fl 9.8"
proof -
  have k: "no_keys released" by (simp add: no_keys_def held_def released_def)
  have v: "car_v moving_car = 10" "car_yaw moving_car = 0" "car_x moving_car = 0"
    "car_y moving_car = 0" by (simp_all add: moving_car_def)
  show ?thesis using simulate_example [OF k v] k v by blast
qed

text \<open>
  C5, as stated: from every nonzero speed, a step with no key held strictly decreases
  the magnitude of the speed. This fails at the smallest doubles: the product of
  \<open>2^-1074\<close> and 0.98 lies between 0 and \<open>2^-1074\<close>, nearer to the latter, and rounds
  back to \<open>2^-1074\<close>, so the speed stays where it is.
\<close>

theorem damping_stalls:
  "no_keys released \<and> is_double (car_v creeping_car) \<and> car_v creeping_car \<noteq> 0 \<and>
   \<not> \<bar>car_v (simulate released 1 creeping_car)\<bar> < \<bar>car_v creeping_car\<bar>"
proof -
  have k: "no_keys released" by (simp add: no_keys_def held_def released_def)
  have "fl (of_int 1 * 2 powr of_int (- 1074)) = of_int 1 * 2 powr of_int (- 1074)"
    by (rule fl_dyadic) simp_all
  then have d: "is_double (car_v creeping_car)"
    by (simp add: is_double_def creeping_car_def)
  have z: "car_v creeping_car \<noteq> 0" by (simp add: creeping_car_def)
  have "car_v (simulate released 1 creeping_car) = car_v creeping_car"
    by (simp add: simulate_v [OF k] creeping_car_def jmul_def fl_tiny)
  then show ?thesis using k d z by simp
qed

text \<open>
  C5, amended: with no key held and a speed that is a nonzero double, no step increases
  the magnitude of the speed or changes its sign, for every \<open>dt\<close>; a step strictly
  decreases the magnitude exactly when it is at least \<open>25 * 2^-1074\<close>. Below that the
  speed stays what it is, and it never becomes 0.
\<close>

theorem damping_monotone:
  assumes "no_keys ks" and "is_double (car_v c)" and "car_v c \<noteq> 0"
  shows "\<bar>car_v ((simulate ks dt ^^ Suc n) c)\<bar> \<le> \<bar>car_v ((simulate ks dt ^^ n) c)\<bar> \<and>
         sgn (car_v ((simulate ks dt ^^ Suc n) c)) = sgn (car_v c) \<and>
         (\<bar>car_v ((simulate ks dt ^^ Suc n) c)\<bar> < \<bar>car_v ((simulate ks dt ^^ n) c)\<bar>
            \<longleftrightarrow> 25 * 2 powr - 1074 \<le> \<bar>car_v ((simulate ks dt ^^ n) c)\<bar>)"
proof -
  define w where "w = car_v ((simulate ks dt ^^ n) c)"
  have w: "is_double w" "sgn w = sgn (car_v c)"
    using speed_invariant [OF assms, where dt = dt and n = n] by (simp_all add: w_def)
  then have "w \<noteq> 0" using assms(3) by (auto simp: sgn_zero_iff)
  then have "\<bar>jmul w damping_factor\<bar> \<le> \<bar>w\<bar> \<and> sgn (jmul w damping_factor) = sgn w \<and>
      (\<bar>jmul w damping_factor\<bar> < \<bar>w\<bar> \<longleftrightarrow> 25 * 2 powr - 1074 \<le> \<bar>w\<bar>)"
    using w(1) by (intro damp_double)
  then show ?thesis
    using w(2) by (simp add: simulate_v [OF assms(1)] w_def)
qed

theorem damping_monotone_witness:
  "no_keys released \<and> is_double (car_v moving_car) \<and> car_v moving_car \<noteq> 0 \<and>
   \<bar>car_v ((simulate released 1 ^^ Suc 0) moving_car)\<bar>
     < \<bar>car_v ((simulate released 1 ^^ 0) moving_car)\<bar>"
proof -
  have k: "no_keys released" by (simp add: no_keys_def held_def released_def)
  have "is_double (of_int 10)" by (rule is_double_of_int) simp
  then have d: "is_double (car_v moving_car)" by (simp add: moving_car_def)
  have z: "car_v moving_car \<noteq> 0" by (simp add: moving_car_def)
  have "(2::real) powr - 1074 \<le> 2 powr - 2" by (rule powr_mono) simp_all
  then have "(2::real) powr - 1074 \<le> 1 / 4" by (simp add: powr_neg_numeral)
  then have "25 * 2 powr - 1074 \<le> (10::real)" by linarith
  then have v: "25 * 2 powr - 1074 \<le> \<bar>car_v ((simulate released 1 ^^ 0) moving_car)\<bar>"
    by (simp add: moving_car_def)
  show ?thesis using damping_monotone [OF k d z, where dt = 1 and n = 0] v k d z by blast
qed

text \<open>
  C6. The bounds of a generated track are the tight bounding box of its polygon: the
  minimum and the maximum of the x coordinates and of the y coordinates of its points.
\<close>

theorem bounds_tight:
  "minX (bounds (generateTrack seed)) = Finite (Min (set (map pt_x (poly (generateTrack seed))))) \<and>
   maxX (bounds (generateTrack seed)) = Finite (Max (set (map pt_x (poly (generateTrack seed))))) \<and>
   minY (bounds (generateTrack seed)) = Finite (Min (set (map pt_y (poly (generateTrack seed))))) \<and>
   maxY (bounds (generateTrack seed)) = Finite (Max (set (map pt_y (poly (generateTrack seed)))))"
proof -
  have "length (poly (generateTrack seed)) = 100" by (rule length_poly)
  then have ne: "map pt_x (poly (generateTrack seed)) \<noteq> []" "map pt_y (poly (generateTrack seed)) \<noteq> []"
    by auto
  show ?thesis
    by (simp only: bounds_generateTrack bounds.simps
        Math_min_nonempty [OF ne(1)] Math_max_nonempty [OF ne(1)]
        Math_min_nonempty [OF ne(2)] Math_max_nonempty [OF ne(2)] simp_thms)
qed

text \<open>C7. The polygon of a generated track has exactly 100 points, for every seed.\<close>

theorem polygon_has_100_points: "length (poly (generateTrack seed)) = 100"
  by (simp add: poly_generateTrack N_def)

text \<open>
  C8. For a track with at least two polygon points, the car is spawned at the first
  point with speed 0, and its heading is \<open>- atan2 (y1 - y0) (x1 - x0) + \<pi> / 2\<close>,
  evaluated in double arithmetic; \<open>atan2\<close> is the angle of the vector from the first
  point to the second (\<open>atan2_angle\<close>).
\<close>

theorem makeCar_spawn:
  assumes "2 \<le> length (poly t)"
  shows "\<exists>c. makeCar t = Inr c \<and>
           car_x c = pt_x (poly t ! 0) \<and> car_y c = pt_y (poly t ! 0) \<and> car_v c = 0 \<and>
           car_yaw c = jadd (- Math_atan2 (jsub (pt_y (poly t ! 1)) (pt_y (poly t ! 0)))
                                          (jsub (pt_x (poly t ! 1)) (pt_x (poly t ! 0))))
                            (jdiv Math_PI 2)"
  using assms by (simp add: makeCar_def Let_def)

theorem makeCar_spawn_witness:
  "2 \<le> length (poly (generateTrack 42)) \<and>
   (\<exists>c. makeCar (generateTrack 42) = Inr c \<and>
         car_x c = pt_x (poly (generateTrack 42) ! 0) \<and> car_v c = 0)"
proof -
  have l: "2 \<le> length (poly (generateTrack 42))" by (simp add: length_poly)
  show ?thesis using makeCar_spawn [OF l] l by blast
qed

text \<open>
  C9. A step with \<open>dt = 0\<close> and no key held leaves the position and the heading of the
  car unchanged, and still multiplies the speed by 0.98.
\<close>

theorem simulate_zero_dt:
  assumes "no_keys ks" and "is_double (car_x c)" and "is_double (car_y c)"
  shows "car_x (simulate ks 0 c) = car_x c \<and> car_y (simulate ks 0 c) = car_y c \<and>
         car_yaw (simulate ks 0 c) = car_yaw c \<and>
         car_v (simulate ks 0 c) = jmul (car_v c) damping_factor"
  using assms(2,3)
  by (simp add: simulate_no_keys [OF assms(1)] jadd_def jsub_def jmul_def fl_zero is_double_def)

theorem simulate_zero_dt_witness:
  "no_keys released \<and> is_double (car_x moving_car) \<and> is_double (car_y moving_car) \<and>
   car_x (simulate released 0 moving_car) = car_x moving_car \<and>
   car_y (simulate released 0 moving_car) = car_y moving_car \<and>
   car_yaw (simulate released 0 moving_car) = car_yaw moving_car \<and>
   car_v (simulate released 0 moving_car) = jmul (car_v moving_car) damping_factor"
proof -
  have k: "no_keys released" by (simp add: no_keys_def held_def released_def)
  have d: "is_double (car_x moving_car)" "is_double (car_y moving_car)"
    by (simp_all add: moving_car_def is_double_def fl_zero)
  show ?thesis using simulate_zero_dt [OF k d] k d by blast
qed

text \<open>
  C10. Teardown should deregister the key listeners and the frame callback. The keyboard
  effect returns a cleanup that removes both listeners; the game-loop effect returns
  nothing, so after mounting and unmounting the frame callback is still requested, and at
  the next repaint it runs, moves the discarded car and requests itself again.
\<close>

theorem frame_callback_survives_unmount:
  "listeners (session 0 initial_page) = [] \<and>
   \<not> mounted (session 0 initial_page) \<and>
   frame_requested (session 0 initial_page) \<and>
   playerCar (animation_frame 1000 (session 0 initial_page)) \<noteq> playerCar (session 0 initial_page) \<and>
   frame_requested (animation_frame 1000 (session 0 initial_page))"
proof -
  have s: "session 0 initial_page = initial_page\<lparr>frame_requested := True\<rparr>"
    by (simp add: session_def mount_def unmount_def keyboard_effect_def game_loop_effect_def
        run_cleanup_def initial_page_def)
  have k: "no_keys released" by (simp add: no_keys_def held_def released_def)
  have "fl (of_int 1000) = of_int 1000" by (rule fl_of_int) simp
  then have dt: "jdiv (jsub 1000 0) 1000 = 1"
    by (simp add: jdiv_def jsub_def fl_one)
  have "car_y (simulate released 1 moving_car) = - fl 9.8"
    using simulate_speed_10 [OF k, of moving_car] by (simp add: moving_car_def)
  moreover have "fl 9.8 \<noteq> 0" by (simp only: fl_98) simp
  ultimately have "car_y (simulate released 1 moving_car) \<noteq> car_y moving_car"
    by (simp add: moving_car_def)
  then have m: "simulate released 1 moving_car \<noteq> moving_car" by auto
  show ?thesis
    unfolding s using m by (simp add: animation_frame_def step_def initial_page_def Let_def dt)
qed

end
